theory Spec2Isabelle
  imports Complex_Main "HOL-Library.Char_ord" "HOL-Library.List_Lexorder" "HOL-Library.Product_Lexorder"
    "HOL-Library.Multiset"
begin

section \<open>Python strings\<close>

text \<open>
  A Python \<open>str\<close> is modelled as a \<open>string\<close>; a \<open>char\<close> stands for a code point below 256.
  The character classes below are the ones of Python 3 on that range. Strings are compared as
  Python compares them: lexicographically by code point (\<open>Char_ord\<close>, \<open>List_Lexorder\<close>).
\<close>

definition LF :: char where "LF = CHR 0x0A"
definition CR :: char where "CR = CHR 0x0D"
definition BSL :: char where "BSL = CHR 0x5C"

definition is_space :: "char \<Rightarrow> bool" where
  "is_space c = ((of_char c :: nat) \<in> {9, 10, 11, 12, 13, 28, 29, 30, 31, 32, 133, 160})"

definition is_line_boundary :: "char \<Rightarrow> bool" where
  "is_line_boundary c = ((of_char c :: nat) \<in> {10, 11, 12, 13, 28, 29, 30, 133})"

definition is_numeric_char :: "char \<Rightarrow> bool" where
  "is_numeric_char c = (let n = (of_char c :: nat) in
     (48 \<le> n \<and> n \<le> 57) \<or> n = 178 \<or> n = 179 \<or> n = 185 \<or> (188 \<le> n \<and> n \<le> 190))"

definition is_word_char :: "char \<Rightarrow> bool" where
  "is_word_char c = (let n = (of_char c :: nat) in
     (48 \<le> n \<and> n \<le> 57) \<or> (65 \<le> n \<and> n \<le> 90) \<or> n = 95 \<or> (97 \<le> n \<and> n \<le> 122) \<or>
     n = 170 \<or> n = 178 \<or> n = 179 \<or> n = 181 \<or> n = 185 \<or> n = 186 \<or> (188 \<le> n \<and> n \<le> 190) \<or>
     (192 \<le> n \<and> n \<le> 214) \<or> (216 \<le> n \<and> n \<le> 246) \<or> (248 \<le> n \<and> n \<le> 255))"

definition lower_char :: "char \<Rightarrow> char" where
  "lower_char c = (let n = (of_char c :: nat) in
     if (65 \<le> n \<and> n \<le> 90) \<or> (192 \<le> n \<and> n \<le> 222 \<and> n \<noteq> 215) then char_of (n + 32) else c)"

definition str_lower :: "string \<Rightarrow> string" where
  "str_lower s = map lower_char s"

definition str_lstrip :: "string \<Rightarrow> string" where
  "str_lstrip s = dropWhile is_space s"

definition str_rstrip :: "string \<Rightarrow> string" where
  "str_rstrip s = rev (dropWhile is_space (rev s))"

definition str_strip :: "string \<Rightarrow> string" where
  "str_strip s = str_lstrip (str_rstrip s)"

text \<open>\<open>s.rstrip('\n')\<close>\<close>
definition rstrip_nl :: "string \<Rightarrow> string" where
  "rstrip_nl s = rev (dropWhile (\<lambda>c. c = LF) (rev s))"

definition str_startswith :: "string \<Rightarrow> string \<Rightarrow> bool" where
  "str_startswith s p = (take (length p) s = p)"

definition str_endswith :: "string \<Rightarrow> string \<Rightarrow> bool" where
  "str_endswith s p = (length p \<le> length s \<and> drop (length s - length p) s = p)"

text \<open>\<open>sub in s\<close>\<close>
fun str_contains :: "string \<Rightarrow> string \<Rightarrow> bool" where
  "str_contains [] sub = (sub = [])"
| "str_contains (c # cs) sub = (str_startswith (c # cs) sub \<or> str_contains cs sub)"

text \<open>\<open>sep.join(xs)\<close>\<close>
fun str_join :: "string \<Rightarrow> string list \<Rightarrow> string" where
  "str_join sep [] = []"
| "str_join sep [x] = x"
| "str_join sep (x # y # ys) = x @ sep @ str_join sep (y # ys)"

text \<open>\<open>s.split(c)\<close> for a one-character separator: never the empty list.\<close>
fun split_on :: "char \<Rightarrow> string \<Rightarrow> string list" where
  "split_on sep [] = [[]]"
| "split_on sep (c # cs) =
     (if c = sep then [] # split_on sep cs
      else (case split_on sep cs of w # ws \<Rightarrow> (c # w) # ws | [] \<Rightarrow> [[c]]))"

text \<open>The maximal runs of characters that satisfy \<open>keep\<close>, left to right; \<open>cur\<close> is the run
  being read.\<close>
fun runs :: "(char \<Rightarrow> bool) \<Rightarrow> string \<Rightarrow> string \<Rightarrow> string list" where
  "runs keep cur [] = (if cur = [] then [] else [cur])"
| "runs keep cur (c # cs) =
     (if keep c then runs keep (cur @ [c]) cs
      else if cur = [] then runs keep [] cs
      else cur # runs keep [] cs)"

text \<open>\<open>s.split()\<close>: the whitespace-separated tokens.\<close>
definition str_split :: "string \<Rightarrow> string list" where
  "str_split s = runs (\<lambda>c. \<not> is_space c) [] s"

text \<open>\<open>re.findall(r'\b\w+\b', s)\<close>: the maximal runs of word characters.\<close>
definition findall_words :: "string \<Rightarrow> string list" where
  "findall_words s = runs is_word_char [] s"

text \<open>\<open>s.splitlines()\<close>: \<open>after_cr\<close> says that the previous character was a carriage return,
  so that a line feed right after it belongs to the same boundary.\<close>
fun splitlines_acc :: "bool \<Rightarrow> string \<Rightarrow> string \<Rightarrow> string list" where
  "splitlines_acc after_cr cur [] = (if cur = [] then [] else [cur])"
| "splitlines_acc after_cr cur (c # cs) =
     (if c = LF \<and> after_cr then splitlines_acc False [] cs
      else if is_line_boundary c then cur # splitlines_acc (c = CR) [] cs
      else splitlines_acc False (cur @ [c]) cs)"

definition str_splitlines :: "string \<Rightarrow> string list" where
  "str_splitlines s = splitlines_acc False [] s"

text \<open>\<open>s.split(sep)\<close> for a separator string, and \<open>s.replace(old, new)\<close>, both scanning left
  to right over non-overlapping occurrences.\<close>
function split_str_acc :: "string \<Rightarrow> string \<Rightarrow> string \<Rightarrow> string list" where
  "split_str_acc sep cur [] = [cur]"
| "split_str_acc sep cur (c # cs) =
     (if sep \<noteq> [] \<and> str_startswith (c # cs) sep
      then cur # split_str_acc sep [] (drop (length sep) (c # cs))
      else split_str_acc sep (cur @ [c]) cs)"
  by pat_completeness auto
termination
  by (relation "measure (\<lambda>(sep, cur, s). length s)") auto

definition split_str :: "string \<Rightarrow> string \<Rightarrow> string list" where
  "split_str sep s = split_str_acc sep [] s"

function str_replace :: "string \<Rightarrow> string \<Rightarrow> string \<Rightarrow> string" where
  "str_replace old new [] = []"
| "str_replace old new (c # cs) =
     (if old \<noteq> [] \<and> str_startswith (c # cs) old
      then new @ str_replace old new (drop (length old) (c # cs))
      else c # str_replace old new cs)"
  by pat_completeness auto
termination
  by (relation "measure (\<lambda>(old, new, s). length s)") auto

text \<open>\<open>s.replace(old, new, 1)\<close>: the first occurrence only.\<close>
fun str_replace_first :: "string \<Rightarrow> string \<Rightarrow> string \<Rightarrow> string" where
  "str_replace_first old new [] = (if old = [] then new else [])"
| "str_replace_first old new (c # cs) =
     (if str_startswith (c # cs) old then new @ drop (length old) (c # cs)
      else c # str_replace_first old new cs)"

definition str_isnumeric :: "string \<Rightarrow> bool" where
  "str_isnumeric s = (s \<noteq> [] \<and> list_all is_numeric_char s)"

section \<open>Dictionaries and sets\<close>

text \<open>
  A Python \<open>dict\<close> keeps its keys in insertion order: it is an association list with distinct
  keys. A Python \<open>set\<close> is a duplicate-free list; where the source iterates over a set, the
  model iterates in insertion order (Python leaves that order open).
\<close>

definition dict_keys :: "('k \<times> 'v) list \<Rightarrow> 'k list" where
  "dict_keys d = map fst d"

definition dict_get :: "('k \<times> 'v) list \<Rightarrow> 'k \<Rightarrow> 'v option" where
  "dict_get d k = map_of d k"

text \<open>\<open>if k not in d: d[k] = v\<close>\<close>
definition dict_setdefault :: "'k \<Rightarrow> 'v \<Rightarrow> ('k \<times> 'v) list \<Rightarrow> ('k \<times> 'v) list" where
  "dict_setdefault k v d = (if k \<in> set (dict_keys d) then d else d @ [(k, v)])"

text \<open>\<open>d[k] = f(d[k])\<close> for a key that is present\<close>
definition dict_modify :: "'k \<Rightarrow> ('v \<Rightarrow> 'v) \<Rightarrow> ('k \<times> 'v) list \<Rightarrow> ('k \<times> 'v) list" where
  "dict_modify k f d = map (\<lambda>(k', v). if k' = k then (k', f v) else (k', v)) d"

text \<open>\<open>s.add(x)\<close>\<close>
definition set_add :: "'a \<Rightarrow> 'a list \<Rightarrow> 'a list" where
  "set_add x s = (if x \<in> set s then s else s @ [x])"

section \<open>The document model (block_properties_parser.py)\<close>

text \<open>
  \<open>Property\<close>: \<open>priv_original_raw\<close> and \<open>priv_preserve_original\<close> are the attributes
  \<open>_original_raw\<close> and \<open>_preserve_original\<close>; \<open>original_raw\<close> and \<open>processed_value\<close> are
  the attributes that only \<open>regenerate_raw_value\<close> creates (\<open>None\<close> until then).
\<close>

record property =
  key :: string
  item_groups :: "(string \<times> string list) list"
  all_items :: "string list"
  priv_original_raw :: "string option"
  priv_preserve_original :: bool
  original_raw :: "string option"
  processed_value :: "string option"

datatype element = Comment string | EmptyLine | Directive string | Property property

text \<open>\<open>items[0].split(':')[0] if ':' in items[0] else 'minecraft'\<close>\<close>
definition mod_id_of :: "string \<Rightarrow> string" where
  "mod_id_of item = (if CHR '':'' \<in> set item then hd (split_on CHR '':'' item) else ''minecraft'')"

text \<open>The body of the inner loop of \<open>_parse_value\<close>: no flag is touched here.\<close>
definition parse_item :: "string \<Rightarrow> string \<Rightarrow> property \<Rightarrow> property" where
  "parse_item mod_id item p =
     (if item \<in> set (all_items p) then p
      else p\<lparr>item_groups := dict_modify mod_id (\<lambda>xs. xs @ [item]) (item_groups p),
             all_items := set_add item (all_items p)\<rparr>)"

definition parse_value_line :: "nat \<Rightarrow> string \<Rightarrow> property \<Rightarrow> property" where
  "parse_value_line i line p =
     (let items = str_split (str_strip line) in
      if items = [] then p
      else
        let mod_id = (if i = 0 then ''minecraft'' else mod_id_of (hd items));
            p1 = p\<lparr>item_groups := dict_setdefault mod_id [] (item_groups p)\<rparr>
        in fold (parse_item mod_id) items p1)"

definition parse_value :: "string \<Rightarrow> property \<Rightarrow> property" where
  "parse_value raw_value p =
     fold (\<lambda>(i, line). parse_value_line i line) (enumerate 0 (str_splitlines raw_value)) p"

text \<open>\<open>Property.__init__\<close>\<close>
definition new_property :: "string \<Rightarrow> string \<Rightarrow> string option \<Rightarrow> property" where
  "new_property k raw_value orig =
     (let o_raw = (case orig of None \<Rightarrow> None | Some s \<Rightarrow> if s = [] then None else Some s)
      in parse_value raw_value
           \<lparr>key = k, item_groups = [], all_items = [],
            priv_original_raw = o_raw, priv_preserve_original = (o_raw \<noteq> None),
            original_raw = None, processed_value = None\<rparr>)"

definition add_item :: "string \<Rightarrow> string \<Rightarrow> property \<Rightarrow> property" where
  "add_item item mod_id p =
     (let p1 = p\<lparr>item_groups := dict_setdefault mod_id [] (item_groups p)\<rparr> in
      if item \<in> set (all_items p1) then p1
      else p1\<lparr>item_groups := dict_modify mod_id (\<lambda>xs. xs @ [item]) (item_groups p1),
              all_items := set_add item (all_items p1),
              priv_preserve_original := False\<rparr>)"

definition sort_items_alphabetically :: "property \<Rightarrow> property" where
  "sort_items_alphabetically p =
     p\<lparr>item_groups := map (\<lambda>(m, xs). (m, sort xs)) (item_groups p),
       priv_preserve_original := False\<rparr>"

definition canonical_value :: "property \<Rightarrow> string" where
  "canonical_value p =
     str_join [CHR '' '', BSL, LF, CHR '' '']
       (map (str_join '' '') (filter (\<lambda>xs. xs \<noteq> []) (map snd (item_groups p))))"

definition to_string_property :: "property \<Rightarrow> string" where
  "to_string_property p =
     (if priv_preserve_original p \<and> priv_original_raw p \<noteq> None
      then key p @ ''='' @ the (priv_original_raw p)
      else if item_groups p = [] then key p @ ''=''
      else key p @ ''='' @ canonical_value p)"

fun to_string :: "element \<Rightarrow> string" where
  "to_string (Comment c) = c"
| "to_string EmptyLine = []"
| "to_string (Directive c) = c"
| "to_string (Property p) = to_string_property p"

text \<open>\<open>_get_all_current_items\<close>\<close>
definition get_all_current_items :: "property \<Rightarrow> string list" where
  "get_all_current_items p = sort (concat (map snd (item_groups p)))"

definition max_line_length :: nat where
  "max_line_length = 120"

text \<open>The wrapping loop of \<open>regenerate_raw_value\<close>; the state is \<open>(new_lines, current_line)\<close>.\<close>
definition wrap_step :: "string \<Rightarrow> string list \<times> string \<Rightarrow> string list \<times> string" where
  "wrap_step token st =
     (case st of (new_lines, current_line) \<Rightarrow>
        if length current_line + length token + (if current_line \<noteq> [] then 2 else 0) > max_line_length
           \<and> current_line \<noteq> []
        then (new_lines @ [str_strip current_line @ [CHR '' '', BSL]], token)
        else if current_line \<noteq> [] then (new_lines, current_line @ '', '' @ token)
        else (new_lines, token))"

definition regenerate_raw_value :: "property \<Rightarrow> property" where
  "regenerate_raw_value p =
     (let full_text = str_join '', '' (get_all_current_items p);
          tokens = split_str '', '' full_text;
          (new_lines, current_line) = fold wrap_step tokens ([], []);
          new_lines' = (if current_line \<noteq> [] then new_lines @ [str_strip current_line] else new_lines);
          raw = str_join [LF] new_lines'
      in p\<lparr>original_raw := Some raw,
            processed_value := Some (str_replace [CHR '' '', BSL] [] raw)\<rparr>)"

section \<open>The parser\<close>

text \<open>Text mode with universal newlines: \<open>\r\n\<close> and \<open>\r\<close> are read as \<open>\n\<close>.\<close>
fun universal_newlines :: "bool \<Rightarrow> string \<Rightarrow> string" where
  "universal_newlines after_cr [] = []"
| "universal_newlines after_cr (c # cs) =
     (if c = CR then LF # universal_newlines True cs
      else if c = LF \<and> after_cr then universal_newlines False cs
      else c # universal_newlines False cs)"

text \<open>\<open>f.readlines()\<close>: every line keeps its newline; the last one may have none.\<close>
fun readlines_acc :: "string \<Rightarrow> string \<Rightarrow> string list" where
  "readlines_acc cur [] = (if cur = [] then [] else [cur])"
| "readlines_acc cur (c # cs) =
     (if c = LF then (cur @ [LF]) # readlines_acc [] cs else readlines_acc (cur @ [c]) cs)"

definition readlines :: "string \<Rightarrow> string list" where
  "readlines text = readlines_acc [] (universal_newlines False text)"

definition directive_keywords :: "string list" where
  "directive_keywords = [''#ifdef'', ''#ifndef'', ''#else'', ''#endif'', ''#define'']"

definition is_directive :: "string \<Rightarrow> bool" where
  "is_directive stripped_line = list_ex (str_startswith stripped_line) directive_keywords"

definition ends_with_backslash :: "string \<Rightarrow> bool" where
  "ends_with_backslash line = str_endswith (str_rstrip line) [BSL]"

text \<open>The continuation loop: \<open>cur\<close> is \<open>raw_value_lines[-1]\<close>, the list holds the lines not
  read yet. It returns the value lines from \<open>cur\<close> on, and the lines left for the outer loop.
  At the end of the file an open continuation is accepted.\<close>
fun collect_cont :: "string \<Rightarrow> string list \<Rightarrow> string list \<times> string list" where
  "collect_cont cur [] = ([cur], [])"
| "collect_cont cur (n # ns) =
     (if ends_with_backslash cur
      then (case collect_cont (rstrip_nl n) ns of (vs, rest) \<Rightarrow> (cur # vs, rest))
      else ([cur], n # ns))"

definition processed_line :: "string \<Rightarrow> string" where
  "processed_line line = (if ends_with_backslash line then butlast (str_rstrip line) else line)"

definition property_of_lines :: "string \<Rightarrow> string list \<Rightarrow> property" where
  "property_of_lines line raw_value_lines =
     (let k = str_strip (takeWhile (\<lambda>c. c \<noteq> CHR ''='') line);
          original_raw_value = str_join [LF] raw_value_lines;
          processed = str_lstrip (str_join [LF] (map processed_line raw_value_lines))
      in new_property k processed (Some original_raw_value))"

text \<open>\<open>line.split('=', 1)[1]\<close> for a line that holds \<open>=\<close>\<close>
definition rest_of_line :: "string \<Rightarrow> string" where
  "rest_of_line line = rstrip_nl (drop 1 (dropWhile (\<lambda>c. c \<noteq> CHR ''='') line))"

lemma collect_cont_length [termination_simp]:
  "length (snd (collect_cont cur ns)) \<le> length ns"
proof (induction ns arbitrary: cur)
  case Nil
  show ?case by simp
next
  case (Cons n ns)
  show ?case
    using Cons.IH [of "rstrip_nl n"] by (auto split: prod.splits)
qed

function parse_lines :: "string list \<Rightarrow> element list" where
  "parse_lines [] = []"
| "parse_lines (l # ls) =
     (let line = rstrip_nl l; stripped_line = str_strip line in
      if stripped_line = [] then EmptyLine # parse_lines ls
      else if is_directive stripped_line then Directive line # parse_lines ls
      else if str_startswith stripped_line ''#'' then Comment line # parse_lines ls
      else if CHR ''='' \<in> set line then
        Property (property_of_lines line (fst (collect_cont (rest_of_line line) ls)))
          # parse_lines (snd (collect_cont (rest_of_line line) ls))
      else Comment (''# [UNPARSED] '' @ line) # parse_lines ls)"
  by pat_completeness auto
termination
  by (relation "measure length") (auto simp: le_imp_less_Suc collect_cont_length)

text \<open>\<open>BlockPropertiesParser.parse\<close>: \<open>None\<close> is a file that cannot be opened or read.\<close>
definition parse :: "string option \<Rightarrow> element list" where
  "parse file = (case file of None \<Rightarrow> [] | Some text \<Rightarrow> parse_lines (readlines text))"

text \<open>The serialisation of \<open>get_diff\<close>: every element's text and a newline.\<close>
definition serialize :: "element list \<Rightarrow> string" where
  "serialize els = concat (map (\<lambda>el. to_string el @ [LF]) els)"


section \<open>The manager (block_properties_manager.py)\<close>

datatype py_error = IndexError | TypeError | ReError | OverflowError | RecursionError | ValueError

text \<open>
  The two stacks grow and shrink at the end of the list (\<open>append\<close>, \<open>pop\<close>). A snapshot is a
  deep copy: a value. \<open>None\<close> is the \<open>None\<close> the fields hold before a file is loaded.
\<close>

record manager =
  original_elements :: "element list option"
  modified_elements :: "element list option"
  history_stack :: "element list option list"
  redo_stack :: "element list option list"
  history_descriptions :: "string list"
  suggestion_index :: "(string \<times> string list) list"
  family_index :: "(string \<times> (string \<times> nat) list) list"
  all_item_values :: "string list"
  all_base_item_names :: "string list"

text \<open>\<open>BlockPropertiesManager.__init__\<close>\<close>
definition new_manager :: manager where
  "new_manager = \<lparr>original_elements = None, modified_elements = None, history_stack = [],
     redo_stack = [], history_descriptions = [], suggestion_index = [], family_index = [],
     all_item_values = [], all_base_item_names = []\<rparr>"

text \<open>The truth value of \<open>self.modified_elements\<close>: a non-empty list.\<close>
definition elements_of :: "manager \<Rightarrow> element list" where
  "elements_of m = (case modified_elements m of None \<Rightarrow> [] | Some els \<Rightarrow> els)"

fun str_of_nat_fuel :: "nat \<Rightarrow> nat \<Rightarrow> string" where
  "str_of_nat_fuel 0 n = []"
| "str_of_nat_fuel (Suc f) n =
     (if n < 10 then [char_of (48 + n)] else str_of_nat_fuel f (n div 10) @ [char_of (48 + n mod 10)])"

text \<open>The decimal digits of a number, as an f-string prints it.\<close>
definition str_of_nat :: "nat \<Rightarrow> string" where
  "str_of_nat n = str_of_nat_fuel (Suc n) n"

definition save_state_for_undo :: "string \<Rightarrow> manager \<Rightarrow> manager" where
  "save_state_for_undo action_description m =
     (if elements_of m \<noteq> []
      then m\<lparr>redo_stack := [],
             history_descriptions := history_descriptions m @ [action_description],
             history_stack := history_stack m @ [modified_elements m]\<rparr>
      else m)"

text \<open>\<open>item.split(":")[-1].split("[")[0]\<close> and \<open>base_name.split("_")[-1]\<close>\<close>
definition base_name_of :: "string \<Rightarrow> string" where
  "base_name_of item = hd (split_on CHR ''['' (last (split_on CHR '':'' item)))"

definition family_key_of :: "string \<Rightarrow> string" where
  "family_key_of base_name = last (split_on CHR ''_'' base_name)"

text \<open>\<open>index.setdefault(word, set()).add(key)\<close>\<close>
definition index_add :: "string \<Rightarrow> string \<Rightarrow> (string \<times> string list) list \<Rightarrow> (string \<times> string list) list" where
  "index_add k word idx = dict_modify word (set_add k) (dict_setdefault word [] idx)"

text \<open>\<open>d[k] = v\<close>\<close>
definition dict_put :: "'k \<Rightarrow> 'v \<Rightarrow> ('k \<times> 'v) list \<Rightarrow> ('k \<times> 'v) list" where
  "dict_put k v d = (if k \<in> set (dict_keys d) then dict_modify k (\<lambda>_. v) d else d @ [(k, v)])"

definition counts_bump :: "string \<Rightarrow> (string \<times> nat) list \<Rightarrow> (string \<times> nat) list" where
  "counts_bump k counts = dict_put k (case dict_get counts k of None \<Rightarrow> 1 | Some c \<Rightarrow> c + 1) counts"

definition family_add ::
  "string \<Rightarrow> string \<Rightarrow> (string \<times> (string \<times> nat) list) list \<Rightarrow> (string \<times> (string \<times> nat) list) list" where
  "family_add k item fam =
     (let family_key = family_key_of (base_name_of item) in
      if family_key \<noteq> [] \<and> \<not> str_isnumeric family_key \<and> length family_key > 2
      then dict_modify family_key (counts_bump k) (dict_setdefault family_key [] fam)
      else fam)"

definition words_in_prop :: "property \<Rightarrow> string list" where
  "words_in_prop p =
     remdups (findall_words (str_lower (str_replace ''_'' '' '' (str_join '' '' (all_items p)))))"

text \<open>The body of the loop of \<open>_build_suggestion_index\<close>; the state is the two indices.\<close>
fun index_element ::
  "element \<Rightarrow> (string \<times> string list) list \<times> (string \<times> (string \<times> nat) list) list
     \<Rightarrow> (string \<times> string list) list \<times> (string \<times> (string \<times> nat) list) list" where
  "index_element (Property p) (idx, fam) =
     (fold (index_add (key p)) (words_in_prop p) idx, fold (family_add (key p)) (all_items p) fam)"
| "index_element _ st = st"

definition build_suggestion_index :: "manager \<Rightarrow> manager" where
  "build_suggestion_index m =
     (let (idx, fam) = fold index_element (elements_of m) ([], [])
      in m\<lparr>suggestion_index := idx, family_index := fam\<rparr>)"

fun items_of_element :: "element \<Rightarrow> string list" where
  "items_of_element (Property p) = all_items p"
| "items_of_element _ = []"

text \<open>\<open>val.split(':')[0].split('[')[0]\<close>\<close>
definition lookup_base_name :: "string \<Rightarrow> string" where
  "lookup_base_name val = hd (split_on CHR ''['' (hd (split_on CHR '':'' val)))"

definition build_lookup_sets :: "manager \<Rightarrow> manager" where
  "build_lookup_sets m =
     (if elements_of m = [] then m
      else
        let vals = remdups (concat (map items_of_element (elements_of m)))
        in m\<lparr>all_item_values := vals, all_base_item_names := remdups (map lookup_base_name vals)\<rparr>)"

text \<open>\<open>load_file\<close>: the parsed elements are the original and, copied, the modified document.\<close>
definition load_file :: "string option \<Rightarrow> manager \<Rightarrow> bool \<times> manager" where
  "load_file file m =
     (let elements = parse file in
      if elements = [] then (False, m)
      else (True, build_lookup_sets (build_suggestion_index
             (m\<lparr>original_elements := Some elements, modified_elements := Some elements,
                history_stack := [], redo_stack := [], history_descriptions := []\<rparr>))))"

fun find_in :: "string \<Rightarrow> element list \<Rightarrow> property option" where
  "find_in category_id [] = None"
| "find_in category_id (Property p # els) = (if key p = category_id then Some p else find_in category_id els)"
| "find_in category_id (_ # els) = find_in category_id els"

definition find_property :: "manager \<Rightarrow> string \<Rightarrow> property option" where
  "find_property m category_id = find_in category_id (elements_of m)"

text \<open>A method call on the object that \<open>_find_property\<close> returned changes the first property
  with that key, in place.\<close>
fun update_in :: "string \<Rightarrow> (property \<Rightarrow> property) \<Rightarrow> element list \<Rightarrow> element list" where
  "update_in category_id f [] = []"
| "update_in category_id f (Property p # els) =
     (if key p = category_id then Property (f p) # els else Property p # update_in category_id f els)"
| "update_in category_id f (e # els) = e # update_in category_id f els"

definition update_property :: "string \<Rightarrow> (property \<Rightarrow> property) \<Rightarrow> manager \<Rightarrow> manager" where
  "update_property category_id f m =
     m\<lparr>modified_elements := map_option (update_in category_id f) (modified_elements m)\<rparr>"

text \<open>\<open>":".join(template_item.split(":")[:2])\<close>\<close>
definition template_base_name_of :: "string \<Rightarrow> string" where
  "template_base_name_of template_item = str_join '':'' (take 2 (split_on CHR '':'' template_item))"

text \<open>\<open>d.setdefault(k, []).append(v)\<close>\<close>
definition dict_append :: "'k \<Rightarrow> 'v \<Rightarrow> ('k \<times> 'v list) list \<Rightarrow> ('k \<times> 'v list) list" where
  "dict_append k v d = dict_modify k (\<lambda>vs. vs @ [v]) (dict_setdefault k [] d)"

fun collect_variations :: "string \<Rightarrow> element \<Rightarrow> (string \<times> string list) list \<Rightarrow> (string \<times> string list) list" where
  "collect_variations template_base_name (Property p) d =
     fold (\<lambda>item_in_prop d. if str_startswith item_in_prop template_base_name
                             then dict_append (key p) item_in_prop d else d)
       (all_items p) d"
| "collect_variations template_base_name _ d = d"

text \<open>The two inner loops of the template mode, on the target property; the flag says whether
  an item was added to it.\<close>
definition add_variation_item :: "string \<Rightarrow> string \<Rightarrow> property \<times> bool \<Rightarrow> property \<times> bool" where
  "add_variation_item suffix new_item_base st =
     (case st of (p, added) \<Rightarrow>
        let new_full_item = new_item_base @ suffix;
            mod_id = mod_id_of new_item_base
        in if new_full_item \<notin> set (all_items p) then (add_item new_full_item mod_id p, True)
           else (p, added))"

definition add_variation :: "string \<Rightarrow> string list \<Rightarrow> string \<Rightarrow> property \<times> bool \<Rightarrow> property \<times> bool" where
  "add_variation template_base_name items_to_add template_variation st =
     fold (add_variation_item (str_replace_first template_base_name [] template_variation))
       items_to_add st"

text \<open>One round of the loop over \<open>template_variations_by_category\<close>; the state is the manager,
  \<open>items_were_added\<close> and the keys of \<open>modified_properties\<close>.\<close>
definition apply_template_to_category ::
  "string \<Rightarrow> string list \<Rightarrow> string \<times> string list \<Rightarrow> manager \<times> bool \<times> string list
     \<Rightarrow> manager \<times> bool \<times> string list" where
  "apply_template_to_category template_base_name items_to_add entry st =
     (case (entry, st) of ((category_id, template_variations), (m, items_were_added, modified_properties)) \<Rightarrow>
        (case find_property m category_id of
           None \<Rightarrow> st
         | Some target_property \<Rightarrow>
             let (p', added) = fold (add_variation template_base_name items_to_add)
                                 template_variations (target_property, False)
             in (update_property category_id (\<lambda>_. p') m,
                 items_were_added \<or> added,
                 if added then set_add category_id modified_properties else modified_properties)))"

definition add_items_to_category ::
  "string list \<Rightarrow> string \<Rightarrow> string option \<Rightarrow> manager \<Rightarrow> bool \<times> manager" where
  "add_items_to_category items_to_add category_id template_item m =
     (case template_item of
        Some (t # ts) \<Rightarrow>
          (let template_base_name = template_base_name_of (t # ts) in
           if elements_of m = [] then (False, m)
           else
             let template_variations_by_category =
                   fold (collect_variations template_base_name) (elements_of m) [];
                 description = ''Template: Applied '' @ [CHR 0x27] @ (t # ts) @ [CHR 0x27] @ '' to ''
                               @ str_of_nat (length items_to_add) @ '' items'';
                 m1 = save_state_for_undo description m;
                 (m2, items_were_added, modified_properties) =
                   fold (apply_template_to_category template_base_name items_to_add)
                     template_variations_by_category (m1, False, []);
                 m3 = fold (\<lambda>k. update_property k regenerate_raw_value) modified_properties m2
             in if \<not> items_were_added then (False, m3)
                else (True, build_lookup_sets (build_suggestion_index m3)))
      | _ \<Rightarrow>
          (case find_property m category_id of
             None \<Rightarrow> (False, m)
           | Some target_property \<Rightarrow>
               if list_all (\<lambda>item. item \<in> set (all_items target_property)) items_to_add then (False, m)
               else
                 let description = ''Added '' @ str_of_nat (length items_to_add) @ '' items to ''
                                   @ [CHR 0x27] @ category_id @ [CHR 0x27];
                     m1 = save_state_for_undo description m;
                     m2 = fold (\<lambda>item. update_property category_id (add_item item (mod_id_of item)))
                            items_to_add m1;
                     m3 = update_property category_id regenerate_raw_value m2
                 in (True, build_lookup_sets (build_suggestion_index m3))))"


definition sort_category :: "string \<Rightarrow> manager \<Rightarrow> py_error + manager" where
  "sort_category category_id m =
     (let m1 = save_state_for_undo (''Sorted category '' @ [CHR 0x27] @ category_id @ [CHR 0x27]) m in
      case find_property m1 category_id of
        Some prop \<Rightarrow>
          Inr (update_property category_id (\<lambda>p. regenerate_raw_value (sort_items_alphabetically p)) m1)
      | None \<Rightarrow>
          if history_stack m1 = [] then Inl IndexError
          else Inr (m1\<lparr>history_stack := butlast (history_stack m1)\<rparr>))"

definition is_digit :: "char \<Rightarrow> bool" where
  "is_digit c = (48 \<le> (of_char c :: nat) \<and> (of_char c :: nat) \<le> 57)"

text \<open>The digits of an \<open>int\<close> literal: single underscores may stand between digits.\<close>
fun digits_value :: "nat \<Rightarrow> bool \<Rightarrow> string \<Rightarrow> nat option" where
  "digits_value acc prev_digit [] = (if prev_digit then Some acc else None)"
| "digits_value acc prev_digit (c # cs) =
     (if is_digit c then digits_value (acc * 10 + (of_char c - 48)) True cs
      else if c = CHR ''_'' \<and> prev_digit \<and> cs \<noteq> [] then digits_value acc False cs
      else None)"

text \<open>\<open>int(s)\<close>; \<open>None\<close> is the \<open>ValueError\<close>.\<close>
definition py_int :: "string \<Rightarrow> int option" where
  "py_int s =
     (case str_strip s of
        [] \<Rightarrow> None
      | c # cs \<Rightarrow>
          if c = CHR ''-'' then map_option (\<lambda>n. - int n) (digits_value 0 False cs)
          else if c = CHR ''+'' then map_option int (digits_value 0 False cs)
          else map_option int (digits_value 0 False (c # cs)))"

text \<open>\<open>int(key.split(".")[-1])\<close>\<close>
definition id_num :: "string \<Rightarrow> int option" where
  "id_num k = py_int (last (split_on CHR ''.'' k))"

text \<open>The search for the insertion point: the index of the first property whose number is
  greater than \<open>new_id_num\<close>; \<open>i\<close> is the index of the head of the list.\<close>
fun find_insert_pos :: "int \<Rightarrow> nat \<Rightarrow> element list \<Rightarrow> nat option" where
  "find_insert_pos new_id_num i [] = None"
| "find_insert_pos new_id_num i (Property p # els) =
     (case id_num (key p) of
        Some current_id_num \<Rightarrow>
          if current_id_num > new_id_num then Some i else find_insert_pos new_id_num (Suc i) els
      | None \<Rightarrow> find_insert_pos new_id_num (Suc i) els)"
| "find_insert_pos new_id_num i (_ # els) = find_insert_pos new_id_num (Suc i) els"

text \<open>\<open>xs.insert(i, x)\<close> for \<open>0 \<le> i\<close>\<close>
definition list_insert :: "nat \<Rightarrow> 'a \<Rightarrow> 'a list \<Rightarrow> 'a list" where
  "list_insert i x xs = take i xs @ [x] @ drop i xs"

definition create_new_category :: "string \<Rightarrow> manager \<Rightarrow> py_error + manager" where
  "create_new_category category_id m =
     (if find_property m category_id \<noteq> None then Inr m
      else
        let m1 = save_state_for_undo (''Created category '' @ [CHR 0x27] @ category_id @ [CHR 0x27]) m;
            new_prop = new_property category_id [] None
        in case modified_elements m1 of
             None \<Rightarrow> Inl TypeError
           | Some els \<Rightarrow>
               let insert_pos =
                     (case id_num category_id of
                        None \<Rightarrow> length els
                      | Some new_id_num \<Rightarrow>
                          (case find_insert_pos new_id_num 0 els of None \<Rightarrow> length els | Some i \<Rightarrow> i));
                   els1 = list_insert insert_pos (Property new_prop) els;
                   els2 = (if insert_pos < length els1 - 1
                           then list_insert (insert_pos + 1) EmptyLine els1 else els1)
               in Inr (build_suggestion_index (m1\<lparr>modified_elements := Some els2\<rparr>)))"

definition serialize_opt :: "element list option \<Rightarrow> string" where
  "serialize_opt d = (case d of None \<Rightarrow> [] | Some els \<Rightarrow> serialize els)"

definition get_diff :: "manager \<Rightarrow> string \<times> string" where
  "get_diff m = (serialize_opt (original_elements m), serialize_opt (modified_elements m))"

text \<open>\<open>undo\<close>: \<open>history_descriptions.pop()\<close> raises on an empty list, after the stacks have
  been exchanged.\<close>
definition undo :: "manager \<Rightarrow> py_error + manager" where
  "undo m =
     (if history_stack m = [] then Inr m
      else
        let m1 = m\<lparr>redo_stack := redo_stack m @ [modified_elements m],
                   modified_elements := last (history_stack m),
                   history_stack := butlast (history_stack m)\<rparr>
        in if history_descriptions m1 = [] then Inl IndexError
           else Inr (build_suggestion_index
                  (m1\<lparr>history_descriptions := butlast (history_descriptions m1)\<rparr>)))"

definition redo :: "manager \<Rightarrow> py_error + manager" where
  "redo m =
     (if redo_stack m = [] then Inr m
      else Inr (build_suggestion_index
             (m\<lparr>history_stack := history_stack m @ [modified_elements m],
                modified_elements := last (redo_stack m),
                redo_stack := butlast (redo_stack m)\<rparr>)))"

subsection \<open>Suggestions\<close>

text \<open>
  The scores are Python numbers: integer weights and the float bonus \<open>count * 5.0\<close>, divided by
  the greatest one. They are modelled as rationals. The sums are small whole numbers, which a
  float holds exactly, a number divided by itself is exactly \<open>1.0\<close>, and rounding the quotients
  keeps their order, so the order of the result and its scores of \<open>1.0\<close> are those of the floats.
\<close>

text \<open>\<open>scores[c] = scores.get(c, 0) + w\<close>\<close>
definition score_add :: "string \<Rightarrow> rat \<Rightarrow> (string \<times> rat) list \<Rightarrow> (string \<times> rat) list" where
  "score_add category_id w scores =
     dict_put category_id ((case dict_get scores category_id of None \<Rightarrow> 0 | Some x \<Rightarrow> x) + w) scores"

definition score_keyword ::
  "(string \<times> string list) list \<Rightarrow> string \<Rightarrow> string \<Rightarrow> (string \<times> rat) list \<Rightarrow> (string \<times> rat) list" where
  "score_keyword idx base_name keyword scores =
     (let weight = (if keyword = base_name then 5 else 1) in
      case dict_get idx keyword of
        None \<Rightarrow> scores
      | Some cats \<Rightarrow> fold (\<lambda>category_id. score_add category_id weight) cats scores)"

definition score_family ::
  "(string \<times> (string \<times> nat) list) list \<Rightarrow> string \<Rightarrow> (string \<times> rat) list \<Rightarrow> (string \<times> rat) list" where
  "score_family fam base_name scores =
     (let family_key = family_key_of base_name in
      if family_key \<noteq> [] then
        (case dict_get fam family_key of
           None \<Rightarrow> scores
         | Some counts \<Rightarrow> fold (\<lambda>(category_id, count). score_add category_id (of_nat count * 5)) counts scores)
      else scores)"

definition keywords_of :: "string \<Rightarrow> string list" where
  "keywords_of base_name = set_add base_name (remdups (str_split (str_replace ''_'' '' '' base_name)))"

definition score_item :: "manager \<Rightarrow> string \<Rightarrow> (string \<times> rat) list \<Rightarrow> (string \<times> rat) list" where
  "score_item m item_name scores =
     (let base_name = base_name_of item_name in
      score_family (family_index m) base_name
        (fold (score_keyword (suggestion_index m) base_name) (keywords_of base_name) scores))"

definition category_scores :: "manager \<Rightarrow> string list \<Rightarrow> (string \<times> rat) list" where
  "category_scores m item_names = fold (score_item m) item_names []"

text \<open>\<open>max(category_scores.values()) if category_scores else 1.0\<close>\<close>
definition max_score_of :: "(string \<times> rat) list \<Rightarrow> rat" where
  "max_score_of scores = (case map snd scores of [] \<Rightarrow> 1 | v # vs \<Rightarrow> fold max vs v)"

definition normalize :: "rat \<Rightarrow> string \<times> rat \<Rightarrow> string \<times> rat" where
  "normalize max_score entry = (fst entry, if max_score > 0 then snd entry / max_score else 0)"

definition suggest_categories_for_items_list :: "manager \<Rightarrow> string list \<Rightarrow> (string \<times> rat) list" where
  "suggest_categories_for_items_list m item_names =
     (if item_names = [] \<or> suggestion_index m = [] then []
      else
        let scores = category_scores m item_names;
            max_score = max_score_of scores
        in sort_key (\<lambda>x. (- snd x, fst x)) (map (normalize max_score) scores))"

text \<open>\<open>check_item_existence\<close>: the lookup sets are built first when the set of items is
  empty; the status and the manager are returned.\<close>
definition check_item_existence :: "manager \<Rightarrow> string \<Rightarrow> string \<times> manager" where
  "check_item_existence m item_name =
     (let m1 = (if all_item_values m = [] then build_lookup_sets m else m) in
      if item_name \<in> set (all_item_values m1) then (''EXISTS'', m1)
      else if lookup_base_name item_name \<in> set (all_base_item_names m1) then (''PARTIAL'', m1)
      else (''NEW'', m1))"

section \<open>The rule-based mapper (auto_mapper.py)\<close>

type_synonym rule = "string \<times> string \<times> string"

text \<open>
  \<open>matches\<close>: the regular-expression engine is a parameter. \<open>re_search pattern item\<close> is
  \<open>Inr found\<close> when \<open>re.search\<close> returns (\<open>found\<close>: the result is not \<open>None\<close>), \<open>Inl ReError\<close>
  when it raises \<open>re.error\<close>, and \<open>Inl\<close> of another exception when it raises that one. Only
  \<open>re.error\<close> is caught; any other exception leaves \<open>matches\<close>.
\<close>
type_synonym regex_engine = "string \<Rightarrow> string \<Rightarrow> py_error + bool"

definition matches :: "regex_engine \<Rightarrow> string \<Rightarrow> rule \<Rightarrow> py_error + bool" where
  "matches re_search item rule =
     (case rule of (t, val, _) \<Rightarrow>
        if t = ''contains'' then Inr (str_contains item val)
        else if t = ''prefix'' then Inr (str_startswith item val)
        else if t = ''suffix'' then Inr (str_endswith item val)
        else if t = ''exact'' then Inr (item = val)
        else if t = ''regex'' then
          (case re_search val item of
             Inr found \<Rightarrow> Inr found
           | Inl e \<Rightarrow> if e = ReError then Inr False else Inl e)
        else Inr False)"

text \<open>The inner loop with its \<open>break\<close>: \<open>chosen\<close>. An exception of \<open>matches\<close> ends it.\<close>
fun choose_rule :: "regex_engine \<Rightarrow> string \<Rightarrow> rule list \<Rightarrow> py_error + rule option" where
  "choose_rule re_search item [] = Inr None"
| "choose_rule re_search item (rule # rules) =
     (case matches re_search item rule of
        Inl e \<Rightarrow> Inl e
      | Inr matched \<Rightarrow> if matched then Inr (Some rule) else choose_rule re_search item rules)"

text \<open>The body of the outer loop; the state is \<open>(mapped, unmapped)\<close>. A target key that is
  \<open>None\<close> or empty is false. The resolver is the manager's \<open>get_template_target_property\<close>,
  which returns a key or \<open>None\<close>.\<close>
definition automap_item ::
  "regex_engine \<Rightarrow> rule list \<Rightarrow> (string \<Rightarrow> string option) \<Rightarrow> string
     \<Rightarrow> (string \<times> string \<times> string) list \<times> (string \<times> string) list
     \<Rightarrow> py_error + (string \<times> string \<times> string) list \<times> (string \<times> string) list" where
  "automap_item re_search rules template_resolver item st =
     (case st of (mapped, unmapped) \<Rightarrow>
        (case choose_rule re_search item rules of
           Inl e \<Rightarrow> Inl e
         | Inr None \<Rightarrow> Inr (mapped, unmapped @ [(item, ''no rule matched'')])
         | Inr (Some (_, _, template_name)) \<Rightarrow>
             (case template_resolver template_name of
                Some (c # cs) \<Rightarrow> Inr (mapped @ [(item, template_name, c # cs)], unmapped)
              | _ \<Rightarrow> Inr (mapped, unmapped @ [(item, ''template '' @ [CHR 0x27] @ template_name
                                                    @ [CHR 0x27] @ '' not found'')]))))"

text \<open>The outer loop: an exception ends it, and the call.\<close>
fun automap_loop ::
  "regex_engine \<Rightarrow> rule list \<Rightarrow> (string \<Rightarrow> string option) \<Rightarrow> string list
     \<Rightarrow> (string \<times> string \<times> string) list \<times> (string \<times> string) list
     \<Rightarrow> py_error + (string \<times> string \<times> string) list \<times> (string \<times> string) list" where
  "automap_loop re_search rules template_resolver [] st = Inr st"
| "automap_loop re_search rules template_resolver (item # items) st =
     (case automap_item re_search rules template_resolver item st of
        Inl e \<Rightarrow> Inl e
      | Inr st' \<Rightarrow> automap_loop re_search rules template_resolver items st')"

definition automap_items ::
  "regex_engine \<Rightarrow> string list \<Rightarrow> rule list \<Rightarrow> (string \<Rightarrow> string option)
     \<Rightarrow> py_error + (string \<times> string \<times> string) list \<times> (string \<times> string) list" where
  "automap_items re_search new_items rules template_resolver =
     automap_loop re_search rules template_resolver new_items ([], [])"

section \<open>Predicates used in the statements\<close>

text \<open>The part of a property line before the first \<open>=\<close>.\<close>
definition key_text :: "string \<Rightarrow> string" where
  "key_text line = takeWhile (\<lambda>c. c \<noteq> CHR ''='') line"

text \<open>
  The lines of a text that the parser keeps verbatim. The predicate follows the parser's own
  scan: at each line that starts an element, a blank line holds no white space, a property's
  key has no white space around it, and the line is not one the parser marks as unparsed.
  Continuation lines are skipped as the parser skips them.
\<close>
function verbatim_lines :: "string list \<Rightarrow> bool" where
  "verbatim_lines [] = True"
| "verbatim_lines (l # ls) =
     (let line = rstrip_nl l; stripped_line = str_strip line in
      if stripped_line = [] then line = [] \<and> verbatim_lines ls
      else if is_directive stripped_line \<or> str_startswith stripped_line ''#'' then verbatim_lines ls
      else if CHR ''='' \<in> set line then
        str_strip (key_text line) = key_text line
        \<and> verbatim_lines (snd (collect_cont (rest_of_line line) ls))
      else False)"
  by pat_completeness auto
termination
  by (relation "measure length") (auto simp: le_imp_less_Suc collect_cont_length)

text \<open>A line as \<open>readlines\<close> yields it when the text goes on: it ends with its only newline.\<close>
definition nl_terminated :: "string \<Rightarrow> bool" where
  "nl_terminated l = (l \<noteq> [] \<and> last l = LF \<and> LF \<notin> set (butlast l))"

text \<open>One cycle: load the text, serialise the untouched document.\<close>
definition load_serialize :: "string \<Rightarrow> string" where
  "load_serialize text = serialize (parse (Some text))"

definition sample_text :: string where
  "sample_text = ''# blocks'' @ [LF] @ [LF] @ ''#ifdef X'' @ [LF]
     @ ''block.1=minecraft:a minecraft:b '' @ [BSL, LF] @ '' mod:c'' @ [LF] @ ''block.2='' @ [LF]"

text \<open>The managers used as concrete inputs: each is a freshly loaded file.\<close>

definition sample_manager :: manager where
  "sample_manager = snd (load_file (Some sample_text) new_manager)"

definition stone_manager :: manager where
  "stone_manager = snd (load_file (Some (''block.1=minecraft:stone'' @ [LF])) new_manager)"

definition unsorted_manager :: manager where
  "unsorted_manager = snd (load_file (Some (''block.1=minecraft:b minecraft:a '' @ [BSL, LF]
      @ '' mod:d mod:c'' @ [LF] @ ''# tail'' @ [LF])) new_manager)"

text \<open>A state with something to redo: a category was sorted and the sort undone.\<close>

definition undone_manager :: manager where
  "undone_manager =
     (case sort_category ''block.1'' unsorted_manager of
        Inr m \<Rightarrow> (case undo m of Inr u \<Rightarrow> u | Inl _ \<Rightarrow> new_manager)
      | Inl _ \<Rightarrow> new_manager)"

text \<open>No search that the rules ask for, on any of the items, raises anything but \<open>re.error\<close>.\<close>
definition no_uncaught_exception :: "regex_engine \<Rightarrow> rule list \<Rightarrow> string list \<Rightarrow> bool" where
  "no_uncaught_exception re_search rules items =
     (\<forall>rule\<in>set rules. \<forall>item\<in>set items. \<forall>e.
        fst rule = ''regex'' \<and> re_search (fst (snd rule)) item = Inl e \<longrightarrow> e = ReError)"

text \<open>The rule matches the item: \<open>matches\<close> returns \<open>True\<close>.\<close>
definition rule_matches :: "regex_engine \<Rightarrow> string \<Rightarrow> rule \<Rightarrow> bool" where
  "rule_matches re_search item rule = (matches re_search item rule = Inr True)"

text \<open>The classification of one item in the words of the specification: the first rule in
  file order that matches decides; the item is mapped when the resolver yields a target for
  that rule's template, and unmapped with a reason otherwise.\<close>
definition mapped_by_first_match ::
  "regex_engine \<Rightarrow> rule list \<Rightarrow> (string \<Rightarrow> string option) \<Rightarrow> string
     \<Rightarrow> (string \<times> string \<times> string) list" where
  "mapped_by_first_match re_search rules template_resolver item =
     (case find (rule_matches re_search item) rules of
        None \<Rightarrow> []
      | Some (t, v, template_name) \<Rightarrow>
          (case template_resolver template_name of
             Some (c # cs) \<Rightarrow> [(item, template_name, c # cs)]
           | _ \<Rightarrow> []))"

definition unmapped_by_first_match ::
  "regex_engine \<Rightarrow> rule list \<Rightarrow> (string \<Rightarrow> string option) \<Rightarrow> string
     \<Rightarrow> (string \<times> string) list" where
  "unmapped_by_first_match re_search rules template_resolver item =
     (case find (rule_matches re_search item) rules of
        None \<Rightarrow> [(item, ''no rule matched'')]
      | Some (t, v, template_name) \<Rightarrow>
          (case template_resolver template_name of
             Some (c # cs) \<Rightarrow> []
           | _ \<Rightarrow> [(item, ''template '' @ [CHR 0x27] @ template_name @ [CHR 0x27] @ '' not found'')]))"

text \<open>A resolver that knows one template, and a stand-in for the engine that does on three
  patterns what CPython's \<open>re.search\<close> does on them: \<open>a{4294967296}\<close> raises \<open>OverflowError\<close>
  (the repetition number is too large), \<open>(\<close> raises \<open>re.error\<close>, and \<open>oak\<close> is found in the
  items that hold it.\<close>
definition sample_resolver :: "string \<Rightarrow> string option" where
  "sample_resolver template_name = (if template_name = ''wall'' then Some ''block.1'' else None)"

definition sample_search :: regex_engine where
  "sample_search pattern item =
     (if pattern = ''a{4294967296}'' then Inl OverflowError
      else if pattern = ''('' then Inl ReError
      else if pattern = ''oak'' then Inr (str_contains item ''oak'')
      else Inr False)"

text \<open>A value text is wrapped at a column budget when every line of it that holds more than
  one token fits the budget.\<close>

definition wrapped_at :: "nat \<Rightarrow> string \<Rightarrow> bool" where
  "wrapped_at budget txt =
     list_all (\<lambda>line. length line \<le> budget \<or> length (str_split line) \<le> 1) (split_on LF txt)"

definition long_a :: string where "long_a = ''minecraft:'' @ replicate 70 CHR ''a''"

definition long_b :: string where "long_b = ''minecraft:'' @ replicate 70 CHR ''b''"

text \<open>A property read from a file, to which a second long item is added.\<close>

definition long_property :: property where
  "long_property = add_item long_b ''minecraft'' (new_property ''block.1'' long_a (Some long_a))"

text \<open>The same through the manager: a file with the one long item is loaded.\<close>
definition long_manager :: manager where
  "long_manager = snd (load_file (Some (''block.1='' @ long_a @ [LF])) new_manager)"

text \<open>The operations that change the document, and a call of one of them.\<close>

datatype operation =
    AddItems "string list" string "string option"
  | SortCategory string
  | CreateCategory string

definition apply_operation :: "operation \<Rightarrow> manager \<Rightarrow> py_error + manager" where
  "apply_operation oper m =
     (case oper of
        AddItems items_to_add category_id template_item \<Rightarrow>
          Inr (snd (add_items_to_category items_to_add category_id template_item m))
      | SortCategory category_id \<Rightarrow> sort_category category_id m
      | CreateCategory category_id \<Rightarrow> create_new_category category_id m)"

text \<open>A run of operations each of which returns and records history: after it the undo stack
  is one entry deeper than before it. \<open>None\<close> when an operation of the list does not.\<close>

fun run_recorded :: "operation list \<Rightarrow> manager \<Rightarrow> manager option" where
  "run_recorded [] m = Some m"
| "run_recorded (oper # opers) m =
     (case apply_operation oper m of
        Inr m' \<Rightarrow>
          if length (history_stack m') = Suc (length (history_stack m)) then run_recorded opers m'
          else None
      | Inl _ \<Rightarrow> None)"

text \<open>\<open>n\<close> calls in a row; an exception ends the row.\<close>

fun repeat_call :: "nat \<Rightarrow> (manager \<Rightarrow> py_error + manager) \<Rightarrow> manager \<Rightarrow> py_error + manager" where
  "repeat_call 0 f m = Inr m"
| "repeat_call (Suc n) f m = (case f m of Inl e \<Rightarrow> Inl e | Inr m' \<Rightarrow> repeat_call n f m')"

text \<open>Two managers with the same stacks, descriptions and original document.\<close>

definition same_history :: "manager \<Rightarrow> manager \<Rightarrow> bool" where
  "same_history m m' =
     (history_stack m' = history_stack m \<and> redo_stack m' = redo_stack m
      \<and> history_descriptions m' = history_descriptions m
      \<and> original_elements m' = original_elements m)"

text \<open>A run of three operations: a sort, an addition in simple mode, a new category.\<close>

definition sample_operations :: "operation list" where
  "sample_operations =
     [SortCategory ''block.1'', AddItems [''mod:z''] ''block.1'' None, CreateCategory ''block.7'']"

text \<open>What a snapshot pushes, and nothing else.\<close>

definition pushed :: "manager \<Rightarrow> manager \<Rightarrow> bool" where
  "pushed m m' =
     (history_stack m' = history_stack m @ [modified_elements m] \<and> redo_stack m' = []
      \<and> length (history_descriptions m') = Suc (length (history_descriptions m))
      \<and> original_elements m' = original_elements m)"

text \<open>\<open>d.get(k, [])\<close>\<close>

definition vars_of :: "(string \<times> string list) list \<Rightarrow> string \<Rightarrow> string list" where
  "vars_of d k = (case map_of d k of None \<Rightarrow> [] | Some vs \<Rightarrow> vs)"

text \<open>The state of the template mode after the loop over the categories: the manager,
  \<open>items_were_added\<close> and the keys of \<open>modified_properties\<close>.\<close>

definition template_state ::
  "string \<Rightarrow> string list \<Rightarrow> string \<Rightarrow> manager \<Rightarrow> manager \<times> bool \<times> string list" where
  "template_state tb items d m =
     fold (apply_template_to_category tb items) (fold (collect_variations tb) (elements_of m) [])
       (save_state_for_undo d m, False, [])"

text \<open>The suffix of a variation: \<open>template_variation.replace(template_base_name, "", 1)\<close>\<close>

definition suffix_of :: "string \<Rightarrow> string \<Rightarrow> string" where
  "suffix_of tb template_variation = str_replace_first tb [] template_variation"

text \<open>A file with two variants of \<open>ns:base\<close> in one category and none elsewhere.\<close>

definition template_manager :: manager where
  "template_manager = snd (load_file (Some (''# walls'' @ [LF]
      @ ''block.1=ns:base[facing=north] ns:base[facing=south] ns:other'' @ [LF]
      @ ''block.2=minecraft:stone'' @ [LF])) new_manager)"

text \<open>An element holds no item that starts with the given text, unless it is a property with
  the given key.\<close>

definition no_variant_outside :: "string \<Rightarrow> string \<Rightarrow> element \<Rightarrow> bool" where
  "no_variant_outside tb k e =
     (case e of
        Property q' \<Rightarrow> key q' = k \<or> list_all (\<lambda>item. \<not> str_startswith item tb) (all_items q')
      | _ \<Rightarrow> True)"

text \<open>\<open>get_items_in_category\<close>: the items of all groups of the category, in order.\<close>

definition get_items_in_category :: "manager \<Rightarrow> string \<Rightarrow> string list" where
  "get_items_in_category m category_id =
     (case find_property m category_id of
        None \<Rightarrow> []
      | Some prop \<Rightarrow> concat (map snd (item_groups prop)))"

text \<open>The invariant of the data model that the template mode relies on: every item of
  \<open>all_items\<close> stands in a group.\<close>

definition items_in_groups :: "property \<Rightarrow> bool" where
  "items_in_groups p = (set (all_items p) \<subseteq> set (concat (map snd (item_groups p))))"

text \<open>A file in which the key \<open>block.1\<close> occurs twice; the second property holds the variants.\<close>

definition duplicate_key_manager :: manager where
  "duplicate_key_manager = snd (load_file (Some (''block.1=minecraft:stone'' @ [LF]
      @ ''block.1=ns:base[facing=north] ns:base[facing=south]'' @ [LF])) new_manager)"

section \<open>Round trip of an untouched document\<close>

lemma universal_newlines_id: "CR \<notin> set s \<Longrightarrow> universal_newlines False s = s"
  by (induction s) auto

lemma concat_readlines_acc: "concat (readlines_acc cur s) = cur @ s"
  by (induction s arbitrary: cur) auto

lemma readlines_acc_terminated:
  "LF \<notin> set cur \<Longrightarrow> (s = [] \<and> cur = []) \<or> (s \<noteq> [] \<and> last s = LF) \<Longrightarrow>
   l \<in> set (readlines_acc cur s) \<Longrightarrow> nl_terminated l"
proof (induction s arbitrary: cur)
  case Nil
  then show ?case by simp
next
  case (Cons c cs)
  show ?case
  proof (cases "c = LF")
    case True
    with Cons.prems have "l = cur @ [LF] \<or> l \<in> set (readlines_acc [] cs)" by simp
    then show ?thesis
    proof
      assume "l = cur @ [LF]"
      with Cons.prems(1) show ?thesis by (simp add: nl_terminated_def)
    next
      assume a: "l \<in> set (readlines_acc [] cs)"
      from Cons.prems(2) have "(cs = [] \<and> ([]::string) = []) \<or> (cs \<noteq> [] \<and> last cs = LF)"
        by (auto split: if_splits)
      from Cons.IH [OF _ this a] show ?thesis by simp
    qed
  next
    case False
    with Cons.prems have a: "l \<in> set (readlines_acc (cur @ [c]) cs)" by simp
    from False Cons.prems(2) have b: "cs \<noteq> [] \<and> last cs = LF" by (auto split: if_splits)
    from False Cons.prems(1) have c: "LF \<notin> set (cur @ [c])" by auto
    from Cons.IH [OF c _ a] b show ?thesis by simp
  qed
qed

lemma dropWhile_absent: "x \<notin> set xs \<Longrightarrow> dropWhile (\<lambda>c. c = x) xs = xs"
  by (cases xs) auto

lemma rstrip_nl_terminated: "nl_terminated l \<Longrightarrow> rstrip_nl l = butlast l"
proof -
  assume a: "nl_terminated l"
  then obtain b where l: "l = b @ [LF]" and b: "LF \<notin> set b"
    unfolding nl_terminated_def by (metis append_butlast_last_id)
  have "dropWhile (\<lambda>c. c = LF) (rev b) = rev b"
    using b by (simp add: dropWhile_absent)
  then show ?thesis by (simp add: l rstrip_nl_def)
qed

lemma rstrip_nl_noop: "LF \<notin> set s \<Longrightarrow> rstrip_nl s = s"
proof -
  assume b: "LF \<notin> set s"
  have "dropWhile (\<lambda>c. c = LF) (rev s) = rev s"
    using b by (simp add: dropWhile_absent)
  then show ?thesis by (simp add: rstrip_nl_def)
qed

lemma collect_cont_subset: "set (snd (collect_cont cur ns)) \<subseteq> set ns"
proof (induction ns arbitrary: cur)
  case Nil show ?case by simp
next
  case (Cons n ns)
  show ?case using Cons.IH [of "rstrip_nl n"] by (auto split: prod.splits)
qed

lemma collect_cont_fst_nonempty: "fst (collect_cont cur ns) \<noteq> []"
  by (cases ns) (auto split: prod.splits)

lemma str_join_cons: "xs \<noteq> [] \<Longrightarrow> str_join sep (x # xs) = x @ sep @ str_join sep xs"
  by (cases xs) auto

lemma collect_cont_text:
  "\<forall>l\<in>set ns. nl_terminated l \<Longrightarrow>
   str_join [LF] (fst (collect_cont cur ns)) @ [LF] @ concat (snd (collect_cont cur ns))
     = cur @ [LF] @ concat ns"
proof (induction ns arbitrary: cur)
  case Nil show ?case by simp
next
  case (Cons n ns)
  show ?case
  proof (cases "ends_with_backslash cur")
    case False then show ?thesis by simp
  next
    case True
    from Cons.prems have n: "nl_terminated n" and ns: "\<forall>l\<in>set ns. nl_terminated l" by auto
    have n': "rstrip_nl n @ [LF] = n"
      using n rstrip_nl_terminated [OF n] by (simp add: nl_terminated_def) (metis append_butlast_last_id)
    obtain vs rest where c: "collect_cont (rstrip_nl n) ns = (vs, rest)" by force
    have vs: "vs \<noteq> []" using collect_cont_fst_nonempty [of "rstrip_nl n" ns] c by simp
    from Cons.IH [OF ns, of "rstrip_nl n"] c
    have "str_join [LF] vs @ [LF] @ concat rest = rstrip_nl n @ [LF] @ concat ns" by simp
    also have "\<dots> = n @ concat ns" using n' by (metis append.assoc)
    finally show ?thesis using True c vs by (simp add: str_join_cons)
  qed
qed

lemma parse_item_frame:
  "key (parse_item m x p) = key p \<and> priv_original_raw (parse_item m x p) = priv_original_raw p
   \<and> priv_preserve_original (parse_item m x p) = priv_preserve_original p"
  by (simp add: parse_item_def)

lemma fold_parse_item_frame:
  "key (fold (parse_item m) xs p) = key p
   \<and> priv_original_raw (fold (parse_item m) xs p) = priv_original_raw p
   \<and> priv_preserve_original (fold (parse_item m) xs p) = priv_preserve_original p"
  by (induction xs arbitrary: p) (simp_all add: parse_item_frame)

lemma parse_value_line_frame:
  "key (parse_value_line i line p) = key p
   \<and> priv_original_raw (parse_value_line i line p) = priv_original_raw p
   \<and> priv_preserve_original (parse_value_line i line p) = priv_preserve_original p"
  by (simp add: parse_value_line_def Let_def fold_parse_item_frame)

lemma fold_parse_value_line_frame:
  "key (fold (\<lambda>(i, line). parse_value_line i line) ils p) = key p
   \<and> priv_original_raw (fold (\<lambda>(i, line). parse_value_line i line) ils p) = priv_original_raw p
   \<and> priv_preserve_original (fold (\<lambda>(i, line). parse_value_line i line) ils p)
       = priv_preserve_original p"
  by (induction ils arbitrary: p) (simp_all add: parse_value_line_frame split: prod.splits)

lemma to_string_new_property:
  "orig \<noteq> [] \<Longrightarrow> to_string_property (new_property k v (Some orig)) = k @ ''='' @ orig"
  by (simp add: to_string_property_def new_property_def parse_value_def fold_parse_value_line_frame)

lemma to_string_property_of_lines:
  assumes "vs \<noteq> []"
  shows "to_string_property (property_of_lines line vs) = str_strip (key_text line) @ ''='' @ str_join [LF] vs"
proof (cases "str_join [LF] vs = []")
  case False
  then show ?thesis
    by (simp add: property_of_lines_def Let_def to_string_new_property key_text_def)
next
  case True
  with assms have vs: "vs = [[]]"
  proof (cases vs)
    case Nil
    with assms show ?thesis by simp
  next
    case (Cons x xs)
    with True show ?thesis by (cases xs) auto
  qed
  have "str_splitlines [] = []" by (simp add: str_splitlines_def)
  then show ?thesis
    by (simp add: vs property_of_lines_def Let_def new_property_def parse_value_def
        to_string_property_def processed_line_def ends_with_backslash_def str_endswith_def
        str_rstrip_def str_lstrip_def key_text_def)
qed

lemma line_split_eq:
  "CHR ''='' \<in> set line \<Longrightarrow>
   line = key_text line @ ''='' @ drop 1 (dropWhile (\<lambda>c. c \<noteq> CHR ''='') line)"
proof -
  assume a: "CHR ''='' \<in> set line"
  then have "dropWhile (\<lambda>c. c \<noteq> CHR ''='') line \<noteq> []" by (simp add: dropWhile_eq_Nil_conv)
  moreover have "hd (dropWhile (\<lambda>c. c \<noteq> CHR ''='') line) = CHR ''=''"
    using a hd_dropWhile [of "\<lambda>c. c \<noteq> CHR ''=''" line] calculation by fastforce
  ultimately have "dropWhile (\<lambda>c. c \<noteq> CHR ''='') line
      = ''='' @ drop 1 (dropWhile (\<lambda>c. c \<noteq> CHR ''='') line)"
    by (cases "dropWhile (\<lambda>c. c \<noteq> CHR ''='') line") auto
  then show ?thesis
    unfolding key_text_def by (metis takeWhile_dropWhile_id)
qed

lemma serialize_parse_lines:
  "\<forall>l\<in>set ls. nl_terminated l \<Longrightarrow> verbatim_lines ls \<Longrightarrow> serialize (parse_lines ls) = concat ls"
proof (induction ls rule: parse_lines.induct)
  case 1
  show ?case by (simp add: serialize_def)
next
  case (2 l ls)
  define line where "line = rstrip_nl l"
  define stripped_line where "stripped_line = str_strip line"
  from "2.prems"(1) have l: "nl_terminated l" and ls: "\<forall>x\<in>set ls. nl_terminated x" by auto
  have line_l: "line @ [LF] = l"
    using l rstrip_nl_terminated [OF l] unfolding line_def nl_terminated_def
    by (metis append_butlast_last_id)
  have no_lf: "LF \<notin> set line"
    using l rstrip_nl_terminated [OF l] unfolding line_def nl_terminated_def by simp
  have pl: "parse_lines (l # ls) =
     (if stripped_line = [] then EmptyLine # parse_lines ls
      else if is_directive stripped_line then Directive line # parse_lines ls
      else if str_startswith stripped_line ''#'' then Comment line # parse_lines ls
      else if CHR ''='' \<in> set line then
        Property (property_of_lines line (fst (collect_cont (rest_of_line line) ls)))
          # parse_lines (snd (collect_cont (rest_of_line line) ls))
      else Comment (''# [UNPARSED] '' @ line) # parse_lines ls)"
    unfolding line_def stripped_line_def by (simp add: Let_def)
  have vl: "verbatim_lines (l # ls) =
     (if stripped_line = [] then line = [] \<and> verbatim_lines ls
      else if is_directive stripped_line \<or> str_startswith stripped_line ''#'' then verbatim_lines ls
      else if CHR ''='' \<in> set line then
        str_strip (key_text line) = key_text line
        \<and> verbatim_lines (snd (collect_cont (rest_of_line line) ls))
      else False)"
    unfolding line_def stripped_line_def by (simp add: Let_def)
  have ser_cons: "\<And>e es. serialize (e # es) = to_string e @ [LF] @ serialize es"
    by (simp add: serialize_def)
  consider (c_empty) "stripped_line = []"
    | (c_directive) "stripped_line \<noteq> []" "is_directive stripped_line"
    | (c_comment) "stripped_line \<noteq> []" "\<not> is_directive stripped_line" "str_startswith stripped_line ''#''"
    | (c_prop) "stripped_line \<noteq> []" "\<not> is_directive stripped_line"
        "\<not> str_startswith stripped_line ''#''" "CHR ''='' \<in> set line"
    | (c_other) "stripped_line \<noteq> []" "\<not> is_directive stripped_line"
        "\<not> str_startswith stripped_line ''#''" "CHR ''='' \<notin> set line"
    by blast
  then show ?case
  proof cases
    case c_empty
    from "2.prems"(2) c_empty have v: "line = []" "verbatim_lines ls"
      unfolding vl by simp_all
    have ih: "serialize (parse_lines ls) = concat ls"
      by (rule "2.IH"(1) [OF line_def stripped_line_def c_empty ls v(2)])
    have "parse_lines (l # ls) = EmptyLine # parse_lines ls"
      unfolding pl using c_empty by simp
    then show ?thesis using ih line_l v(1) by (simp add: ser_cons)
  next
    case c_directive
    from "2.prems"(2) c_directive have v: "verbatim_lines ls"
      unfolding vl by simp
    have ih: "serialize (parse_lines ls) = concat ls"
      by (rule "2.IH"(2) [OF line_def stripped_line_def c_directive ls v])
    have "parse_lines (l # ls) = Directive line # parse_lines ls"
      unfolding pl using c_directive by simp
    then have "serialize (parse_lines (l # ls)) = (line @ [LF]) @ concat ls"
      using ih by (simp add: ser_cons)
    then show ?thesis unfolding line_l by simp
  next
    case c_comment
    from "2.prems"(2) c_comment have v: "verbatim_lines ls"
      unfolding vl by simp
    have ih: "serialize (parse_lines ls) = concat ls"
      by (rule "2.IH"(3) [OF line_def stripped_line_def c_comment ls v])
    have "parse_lines (l # ls) = Comment line # parse_lines ls"
      unfolding pl using c_comment by simp
    then have "serialize (parse_lines (l # ls)) = (line @ [LF]) @ concat ls"
      using ih by (simp add: ser_cons)
    then show ?thesis unfolding line_l by simp
  next
    case c_prop
    define rest where "rest = rest_of_line line"
    define vs where "vs = fst (collect_cont rest ls)"
    define rem where "rem = snd (collect_cont rest ls)"
    from "2.prems"(2) c_prop have k: "str_strip (key_text line) = key_text line"
      and v: "verbatim_lines rem"
      unfolding vl rem_def rest_def by simp_all
    have rem_t: "\<forall>x\<in>set rem. nl_terminated x"
      using ls collect_cont_subset [of rest ls] unfolding rem_def by blast
    have ih: "serialize (parse_lines rem) = concat rem"
      using "2.IH"(4) [OF line_def stripped_line_def c_prop] rem_t v
      unfolding rem_def rest_def by simp
    have vs_ne: "vs \<noteq> []" unfolding vs_def by (rule collect_cont_fst_nonempty)
    have "LF \<notin> set (drop 1 (dropWhile (\<lambda>c. c \<noteq> CHR ''='') line))"
      using no_lf by (meson in_set_dropD set_dropWhileD)
    then have rest_eq: "rest = drop 1 (dropWhile (\<lambda>c. c \<noteq> CHR ''='') line)"
      unfolding rest_def rest_of_line_def by (rule rstrip_nl_noop)
    have line_eq: "line = key_text line @ ''='' @ rest"
      using line_split_eq [OF c_prop(4)] rest_eq by simp
    have "parse_lines (l # ls) = Property (property_of_lines line vs) # parse_lines rem"
      unfolding pl vs_def rem_def rest_def using c_prop by simp
    then have "serialize (parse_lines (l # ls))
        = to_string_property (property_of_lines line vs) @ [LF] @ serialize (parse_lines rem)"
      by (simp add: ser_cons)
    also have "\<dots> = key_text line @ ''='' @ (str_join [LF] vs @ [LF] @ concat rem)"
      using to_string_property_of_lines [OF vs_ne, of line] k ih by simp
    also have "str_join [LF] vs @ [LF] @ concat rem = rest @ [LF] @ concat ls"
      unfolding vs_def rem_def by (rule collect_cont_text [OF ls])
    also have "key_text line @ ''='' @ (rest @ [LF] @ concat ls) = (line @ [LF]) @ concat ls"
      using line_eq by (metis append.assoc)
    finally show ?thesis unfolding line_l by simp
  next
    case c_other
    with "2.prems"(2) show ?thesis
      unfolding vl by simp
  qed
qed

lemma readlines_terminated:
  assumes "CR \<notin> set text" "text = [] \<or> last text = LF"
  shows "\<forall>l\<in>set (readlines text). nl_terminated l"
proof
  fix l assume "l \<in> set (readlines text)"
  then have a: "l \<in> set (readlines_acc [] text)"
    using assms(1) by (simp add: readlines_def universal_newlines_id)
  have b: "(text = [] \<and> ([]::string) = []) \<or> (text \<noteq> [] \<and> last text = LF)"
    using assms(2) by auto
  show "nl_terminated l"
    by (rule readlines_acc_terminated [OF _ b a]) simp
qed

text \<open>
  Claim C1, as the code has it. Let a text hold no carriage return, end with a newline (or be
  empty), and let each line that starts an element be kept verbatim by the parser: a blank
  line holds no white space, the key of a property has no white space around it, and the line
  is a comment, a directive, a blank line or a property. Then loading the text and serialising
  the untouched document gives the text back, character by character, and so does any number
  of such cycles. Continuations need no further condition: continuation lines are copied as
  they are, also when the file ends inside one.
\<close>

theorem roundtrip_verbatim_text:
  assumes "CR \<notin> set text" and "text = [] \<or> last text = LF"
    and "verbatim_lines (readlines text)"
  shows "(load_serialize ^^ Suc n) text = text"
proof -
  have "serialize (parse_lines (readlines text)) = concat (readlines text)"
    by (rule serialize_parse_lines [OF readlines_terminated [OF assms(1,2)] assms(3)])
  also have "\<dots> = text"
    using assms(1) by (simp add: readlines_def universal_newlines_id concat_readlines_acc)
  finally have one: "load_serialize text = text"
    by (simp add: load_serialize_def parse_def)
  show ?thesis
    by (induction n) (simp_all add: one)
qed

text \<open>The theorem at a text with a comment, a blank line, a directive, a property that
  continues over two lines and a property with no value: three cycles give the text back.\<close>

theorem roundtrip_verbatim_text_witness:
  "CR \<notin> set sample_text \<and> last sample_text = LF \<and> verbatim_lines (readlines sample_text)
   \<and> (load_serialize ^^ Suc 2) sample_text = sample_text"
proof -
  have h1: "CR \<notin> set sample_text" by code_simp
  have h2: "last sample_text = LF" by code_simp
  have h3: "verbatim_lines (readlines sample_text)" by code_simp
  show ?thesis
    using roundtrip_verbatim_text [OF h1 _ h3, of 2] h1 h2 h3 by blast
qed

text \<open>
  Claim C1 as stated fails. Each of these texts holds only elements of the four kinds and no
  continuation, and one load and serialisation changes it: a last line without a newline gets
  one; the white space before \<open>=\<close> is dropped with the key's; a blank line of two spaces
  comes back empty; a carriage return and line feed come back as a line feed.
\<close>

theorem roundtrip_counterexample:
  "load_serialize ''block.1=a'' = ''block.1=a'' @ [LF]
   \<and> load_serialize ''block.1=a'' \<noteq> ''block.1=a''
   \<and> load_serialize (''block.1 = a'' @ [LF]) = ''block.1= a'' @ [LF]
   \<and> load_serialize (''block.1 = a'' @ [LF]) \<noteq> ''block.1 = a'' @ [LF]
   \<and> load_serialize (''  '' @ [LF] @ ''block.1=a'' @ [LF]) = [LF] @ ''block.1=a'' @ [LF]
   \<and> load_serialize (''  '' @ [LF] @ ''block.1=a'' @ [LF]) \<noteq> ''  '' @ [LF] @ ''block.1=a'' @ [LF]
   \<and> load_serialize (''block.1=a'' @ [CR, LF]) = ''block.1=a'' @ [LF]
   \<and> load_serialize (''block.1=a'' @ [CR, LF]) \<noteq> ''block.1=a'' @ [CR, LF]"
  by code_simp

section \<open>Adding items that are all present\<close>

text \<open>
  Claim C9. In simple mode (no template item, or an empty one), when the category exists and
  every item of the list is already in it (the empty list included), \<open>add_items_to_category\<close>
  returns \<open>False\<close> and the manager is the one before the call: no history entry, no
  description, the same document.
\<close>

theorem duplicate_add_is_noop:
  assumes "find_property m category_id = Some target_property"
    and "set items_to_add \<subseteq> set (all_items target_property)"
    and "template_item = None \<or> template_item = Some []"
  shows "add_items_to_category items_to_add category_id template_item m = (False, m)"
proof -
  have "list_all (\<lambda>item. item \<in> set (all_items target_property)) items_to_add"
    using assms(2) by (auto simp: list_all_iff)
  then show ?thesis
    using assms(1,3) by (auto simp: add_items_to_category_def)
qed

text \<open>The theorem on a loaded file, for two items that are present and for the empty list.\<close>

theorem duplicate_add_is_noop_witness:
  "find_property sample_manager ''block.1'' \<noteq> None
   \<and> set [''mod:c'', ''minecraft:a''] \<subseteq> set (all_items (the (find_property sample_manager ''block.1'')))
   \<and> add_items_to_category [''mod:c'', ''minecraft:a''] ''block.1'' None sample_manager
       = (False, sample_manager)
   \<and> add_items_to_category [] ''block.1'' None sample_manager = (False, sample_manager)"
proof -
  have h0: "find_property sample_manager ''block.1'' \<noteq> None" by code_simp
  then have h1: "find_property sample_manager ''block.1''
      = Some (the (find_property sample_manager ''block.1''))" by simp
  have h2: "set [''mod:c'', ''minecraft:a'']
      \<subseteq> set (all_items (the (find_property sample_manager ''block.1'')))" by code_simp
  have h3: "set ([]::string list) \<subseteq> set (all_items (the (find_property sample_manager ''block.1'')))"
    by simp
  show ?thesis
    using duplicate_add_is_noop [OF h1 h2, of None] duplicate_add_is_noop [OF h1 h3, of None] h0 h2
    by simp
qed

section \<open>The rule-based mapper\<close>

lemma matches_returns:
  assumes "no_uncaught_exception re_search rules items" and "rule \<in> set rules" and "item \<in> set items"
  shows "matches re_search item rule = Inr (rule_matches re_search item rule)"
proof -
  obtain t v n where r: "rule = (t, v, n)" by (cases rule) auto
  show ?thesis
  proof (cases "t = ''regex''")
    case False
    then show ?thesis by (simp add: r matches_def rule_matches_def)
  next
    case True
    show ?thesis
    proof (cases "re_search v item")
      case (Inr found)
      with True show ?thesis by (simp add: r matches_def rule_matches_def)
    next
      case (Inl e)
      with assms True r have "e = ReError"
        unfolding no_uncaught_exception_def by fastforce
      with Inl True show ?thesis by (simp add: r matches_def rule_matches_def)
    qed
  qed
qed

lemma choose_rule_find:
  "\<forall>rule\<in>set rules. matches re_search item rule = Inr (rule_matches re_search item rule) \<Longrightarrow>
   choose_rule re_search item rules = Inr (find (rule_matches re_search item) rules)"
  by (induction rules) auto

lemma automap_item_eq:
  "\<forall>rule\<in>set rules. matches re_search item rule = Inr (rule_matches re_search item rule) \<Longrightarrow>
   automap_item re_search rules template_resolver item (mapped, unmapped) =
     Inr (mapped @ mapped_by_first_match re_search rules template_resolver item,
          unmapped @ unmapped_by_first_match re_search rules template_resolver item)"
  by (auto simp: automap_item_def mapped_by_first_match_def unmapped_by_first_match_def
      choose_rule_find split: option.splits list.splits)

lemma automap_loop_eq:
  "\<forall>item\<in>set items. \<forall>rule\<in>set rules.
      matches re_search item rule = Inr (rule_matches re_search item rule) \<Longrightarrow>
   automap_loop re_search rules template_resolver items (mapped, unmapped) =
     Inr (mapped @ concat (map (mapped_by_first_match re_search rules template_resolver) items),
          unmapped @ concat (map (unmapped_by_first_match re_search rules template_resolver) items))"
  by (induction items arbitrary: mapped unmapped) (simp_all add: automap_item_eq)

text \<open>
  What the loops do when no search raises an exception other than \<open>re.error\<close>: the call
  returns, and its two lists are, item by item and in the order of the items, what the first
  matching rule decides.
\<close>

lemma automap_classifies_by_first_match:
  assumes "no_uncaught_exception re_search rules new_items"
  shows "automap_items re_search new_items rules template_resolver =
     Inr (concat (map (mapped_by_first_match re_search rules template_resolver) new_items),
          concat (map (unmapped_by_first_match re_search rules template_resolver) new_items))"
proof -
  have "\<forall>item\<in>set new_items. \<forall>rule\<in>set rules.
      matches re_search item rule = Inr (rule_matches re_search item rule)"
    using matches_returns [OF assms] by blast
  then show ?thesis
    by (simp add: automap_items_def automap_loop_eq)
qed

text \<open>
  Claim C8 does not hold of the code for every list of rules. The item \<open>x\<close> and the one rule
  \<open>regex:a{4294967296}\<close>: the search raises \<open>OverflowError\<close>, \<open>matches\<close> catches \<open>re.error\<close>
  only, and \<open>automap_items\<close> raises instead of reporting the item unmapped with the reason
  \<open>no rule matched\<close>, as it does for the pattern \<open>(\<close>, whose \<open>re.error\<close> is caught. With a
  suffix rule before the raising rule, the first item is decided by the suffix rule and the
  second reaches the raising one: the call raises and no item is classified. On rules whose
  searches return, the first rule that matches wins: \<open>a:oak_wall\<close> matches the suffix rule
  and the regex rule and gets the template of the suffix rule.
\<close>

theorem automap_raises_on_uncaught_exception:
  "matches sample_search ''x'' (''regex'', ''a{4294967296}'', ''wall'') = Inl OverflowError
   \<and> automap_items sample_search [''x''] [(''regex'', ''a{4294967296}'', ''wall'')] sample_resolver
       = Inl OverflowError
   \<and> automap_items sample_search [''x''] [(''regex'', ''('', ''wall'')] sample_resolver
       = Inr ([], [(''x'', ''no rule matched'')])
   \<and> automap_items sample_search [''a:oak_wall'', ''x'']
         [(''suffix'', ''_wall'', ''wall''), (''regex'', ''a{4294967296}'', ''planks'')] sample_resolver
       = Inl OverflowError
   \<and> automap_items sample_search [''a:oak_wall'', ''x'']
         [(''suffix'', ''_wall'', ''wall''), (''regex'', ''oak'', ''planks'')] sample_resolver
       = Inr ([(''a:oak_wall'', ''wall'', ''block.1'')], [(''x'', ''no rule matched'')])"
  by code_simp

section \<open>Sorting a category that does not exist\<close>

text \<open>
  Claim C4 does not hold of the code. On a loaded file with an empty history, sorting the
  missing category \<open>block.9\<close> leaves the undo stack empty but keeps the description it pushed:
  one description for no snapshot. With something to redo, the redo stack is emptied as well.
  With no file loaded, nothing was pushed and the \<open>pop\<close> raises.
\<close>

theorem sort_missing_category_pollutes_history:
  "find_property sample_manager ''block.9'' = None
   \<and> history_stack sample_manager = [] \<and> history_descriptions sample_manager = []
   \<and> sort_category ''block.9'' sample_manager
     = Inr (sample_manager\<lparr>history_descriptions :=
              [''Sorted category '' @ [CHR 0x27] @ ''block.9'' @ [CHR 0x27]]\<rparr>)
   \<and> find_property undone_manager ''block.9'' = None
   \<and> length (redo_stack undone_manager) = 1
   \<and> (case sort_category ''block.9'' undone_manager of
         Inr m \<Rightarrow> redo_stack m = [] \<and> history_stack m = history_stack undone_manager
                  \<and> length (history_descriptions m) = Suc (length (history_descriptions undone_manager))
       | Inl _ \<Rightarrow> False)
   \<and> sort_category ''block.9'' new_manager = Inl IndexError"
  by code_simp

section \<open>The existence check compares name spaces\<close>

text \<open>
  Claim C6 does not hold of the code. The document holds the one item \<open>minecraft:stone\<close>.
  The new item \<open>minecraft:dirt\<close>, whose base name \<open>dirt\<close> is unknown, is reported
  \<open>PARTIAL\<close>, and \<open>other:stone\<close>, whose base name \<open>stone\<close> is known, is reported \<open>NEW\<close>:
  the lookup keeps the text before the first colon, the name space, where the suggestion
  index (\<open>base_name_of\<close>) keeps the text after the last one. Besides, \<open>undo\<close> does not
  rebuild the lookup sets: after \<open>minecraft:dirt\<close> is added and the addition undone, the
  item is reported \<open>EXISTS\<close> though the document does not hold it.
\<close>

theorem check_item_existence_uses_namespace:
  "all_item_values stone_manager = [''minecraft:stone'']
   \<and> (case undo (snd (add_items_to_category [''minecraft:dirt''] ''block.1'' None stone_manager)) of
         Inr m \<Rightarrow> fst (check_item_existence m ''minecraft:dirt'') = ''EXISTS''
                  \<and> concat (map items_of_element (elements_of m)) = [''minecraft:stone'']
       | Inl _ \<Rightarrow> False)
   \<and> all_base_item_names stone_manager = [''minecraft'']
   \<and> fst (check_item_existence stone_manager ''minecraft:dirt'') = ''PARTIAL''
   \<and> fst (check_item_existence stone_manager ''other:stone'') = ''NEW''
   \<and> base_name_of ''minecraft:stone'' = ''stone''
   \<and> base_name_of ''minecraft:dirt'' = ''dirt''
   \<and> base_name_of ''other:stone'' = ''stone''"
  by code_simp

section \<open>The text of a property after an edit is not wrapped\<close>

lemma regenerate_raw_value_frame:
  "key (regenerate_raw_value p) = key p \<and> item_groups (regenerate_raw_value p) = item_groups p
   \<and> all_items (regenerate_raw_value p) = all_items p
   \<and> priv_original_raw (regenerate_raw_value p) = priv_original_raw p
   \<and> priv_preserve_original (regenerate_raw_value p) = priv_preserve_original p"
  by (simp add: regenerate_raw_value_def Let_def split_def)

lemma to_string_regenerate: "to_string_property (regenerate_raw_value p) = to_string_property p"
  by (simp only: to_string_property_def canonical_value_def regenerate_raw_value_frame)

text \<open>
  Claim C3 does not hold of the code: the text of an edited property is not wrapped. A
  property holds one item of 80 characters; a second one is added, to the same group.
  \<open>regenerate_raw_value\<close> builds the text wrapped at its budget of 120 columns (two lines)
  and stores it in the attribute \<open>original_raw\<close>; \<open>to_string\<close> reads \<open>_original_raw\<close> only,
  and serialises the group as one line of 161 characters. The same happens through the
  manager: after \<open>add_items_to_category\<close> on the loaded file, the text to save holds that line.
\<close>

theorem regenerated_text_is_never_serialized:
  "original_raw (regenerate_raw_value long_property) = Some (long_a @ [CHR '' '', BSL, LF] @ long_b)
   \<and> wrapped_at max_line_length (long_a @ [CHR '' '', BSL, LF] @ long_b)
   \<and> to_string_property (regenerate_raw_value long_property) = ''block.1='' @ long_a @ '' '' @ long_b
   \<and> length (long_a @ '' '' @ long_b) = 161
   \<and> \<not> wrapped_at max_line_length (to_string_property (regenerate_raw_value long_property))
   \<and> snd (get_diff (snd (add_items_to_category [long_b] ''block.1'' None long_manager)))
       = ''block.1='' @ long_a @ '' '' @ long_b @ [LF]"
  by code_simp

section \<open>Sorting a category\<close>

lemma find_in_split:
  "find_in k els = Some p \<Longrightarrow>
   \<exists>pre post. els = pre @ Property p # post \<and> find_in k pre = None
     \<and> update_in k f els = pre @ Property (f p) # post"
proof (induction els)
  case Nil
  then show ?case by simp
next
  case (Cons e els)
  show ?case
  proof (cases "\<exists>q. e = Property q \<and> key q = k")
    case True
    with Cons.prems have "e = Property p" by auto
    with True show ?thesis by (intro exI [of _ "[]"] exI [of _ els]) auto
  next
    case False
    then have skip: "\<And>xs. find_in k (e # xs) = find_in k xs"
      "update_in k f (e # els) = e # update_in k f els"
      by (cases e; auto)+
    with Cons.prems have "find_in k els = Some p" by simp
    from Cons.IH [OF this] obtain pre post where "els = pre @ Property p # post"
      "find_in k pre = None" "update_in k f els = pre @ Property (f p) # post" by blast
    then show ?thesis
      using skip by (intro exI [of _ "e # pre"] exI [of _ post]) simp
  qed
qed

lemma find_in_key: "find_in k els = Some p \<Longrightarrow> key p = k"
  by (induction k els rule: find_in.induct) (auto split: if_splits)

lemma elements_of_save_state [simp]:
  "modified_elements (save_state_for_undo d m) = modified_elements m"
  by (simp add: save_state_for_undo_def)

lemma elements_of_save_state2 [simp]:
  "elements_of (save_state_for_undo d m) = elements_of m"
  by (simp add: elements_of_def)

text \<open>
  Claim C10. When the category exists, \<open>sort_category\<close> returns normally, and the modified
  document differs from the one before in one element only: the first property with that key.
  That property keeps its key and its set of items; its groups keep their names and their
  order; each group's list is the sorted list of the group before, so it is sorted in the
  order of Python's strings and holds the same items as often. The original document is
  unchanged.
\<close>

theorem sort_category_frame:
  assumes "find_property m category_id = Some p"
  shows "\<exists>pre post p' m'.
      sort_category category_id m = Inr m'
    \<and> modified_elements m = Some (pre @ Property p # post)
    \<and> modified_elements m' = Some (pre @ Property p' # post)
    \<and> find_in category_id pre = None
    \<and> key p' = key p \<and> all_items p' = all_items p
    \<and> map fst (item_groups p') = map fst (item_groups p)
    \<and> map snd (item_groups p') = map sort (map snd (item_groups p))
    \<and> list_all2 (\<lambda>xs' xs. sorted xs' \<and> mset xs' = mset xs)
          (map snd (item_groups p')) (map snd (item_groups p))
    \<and> original_elements m' = original_elements m"
proof -
  define f where "f = (\<lambda>p. regenerate_raw_value (sort_items_alphabetically p))"
  define m1 where "m1 = save_state_for_undo (''Sorted category '' @ [CHR 0x27] @ category_id @ [CHR 0x27]) m"
  from assms obtain els where els: "modified_elements m = Some els" and f_in: "find_in category_id els = Some p"
    by (auto simp: find_property_def elements_of_def split: option.splits)
  from find_in_split [OF f_in, of f] obtain pre post where
    sp: "els = pre @ Property p # post" "find_in category_id pre = None"
      "update_in category_id f els = pre @ Property (f p) # post" by blast
  have res: "sort_category category_id m = Inr (update_property category_id f m1)"
    unfolding sort_category_def m1_def f_def Let_def
    using assms by (simp add: find_property_def)
  have mod': "modified_elements (update_property category_id f m1) = Some (pre @ Property (f p) # post)"
    using els sp(3) by (simp add: update_property_def m1_def)
  have orig: "original_elements (update_property category_id f m1) = original_elements m"
    by (simp add: update_property_def m1_def save_state_for_undo_def)
  have g: "item_groups (f p) = map (\<lambda>(g, xs). (g, sort xs)) (item_groups p)"
    by (simp add: f_def regenerate_raw_value_frame sort_items_alphabetically_def)
  have g1: "map fst (item_groups (f p)) = map fst (item_groups p)"
    unfolding g by (induction "item_groups p") (auto simp: case_prod_beta)
  have g2: "map snd (item_groups (f p)) = map sort (map snd (item_groups p))"
    unfolding g by (simp add: case_prod_beta)
  have g3: "list_all2 (\<lambda>xs' xs. sorted xs' \<and> mset xs' = mset xs)
          (map snd (item_groups (f p))) (map snd (item_groups p))"
    unfolding g2 by (simp add: list_all2_conv_all_nth)
  have kp: "key (f p) = key p" "all_items (f p) = all_items p"
    by (simp_all add: f_def regenerate_raw_value_frame sort_items_alphabetically_def)
  show ?thesis
    using res els sp(1,2) mod' orig g1 g2 g3 kp by blast
qed

text \<open>The theorem on a loaded file whose category \<open>block.1\<close> has two unsorted groups.\<close>

theorem sort_category_frame_witness:
  "find_property unsorted_manager ''block.1'' \<noteq> None
   \<and> (\<exists>pre post p' m'.
      sort_category ''block.1'' unsorted_manager = Inr m'
    \<and> modified_elements unsorted_manager
        = Some (pre @ Property (the (find_property unsorted_manager ''block.1'')) # post)
    \<and> modified_elements m' = Some (pre @ Property p' # post)
    \<and> find_in ''block.1'' pre = None
    \<and> key p' = key (the (find_property unsorted_manager ''block.1''))
    \<and> all_items p' = all_items (the (find_property unsorted_manager ''block.1''))
    \<and> map fst (item_groups p') = map fst (item_groups (the (find_property unsorted_manager ''block.1'')))
    \<and> map snd (item_groups p')
        = map sort (map snd (item_groups (the (find_property unsorted_manager ''block.1''))))
    \<and> list_all2 (\<lambda>xs' xs. sorted xs' \<and> mset xs' = mset xs)
          (map snd (item_groups p'))
          (map snd (item_groups (the (find_property unsorted_manager ''block.1''))))
    \<and> original_elements m' = original_elements unsorted_manager)"
proof -
  have h0: "find_property unsorted_manager ''block.1'' \<noteq> None" by code_simp
  then have h1: "find_property unsorted_manager ''block.1''
      = Some (the (find_property unsorted_manager ''block.1''))" by simp
  show ?thesis
    using sort_category_frame [OF h1] h0 by simp
qed

section \<open>Undo and redo\<close>

lemma same_history_refl [simp]: "same_history m m"
  by (simp add: same_history_def)

lemma same_history_trans: "same_history a b \<Longrightarrow> same_history b c \<Longrightarrow> same_history a c"
  by (simp add: same_history_def)

lemma same_history_index [simp]: "same_history m (build_suggestion_index m)"
  by (simp add: same_history_def build_suggestion_index_def split_def Let_def)

lemma same_history_lookup [simp]: "same_history m (build_lookup_sets m)"
  by (simp add: same_history_def build_lookup_sets_def Let_def)

lemma same_history_update [simp]: "same_history m (update_property k f m)"
  by (simp add: same_history_def update_property_def)

lemma modified_index [simp]: "modified_elements (build_suggestion_index m) = modified_elements m"
  by (simp add: build_suggestion_index_def split_def Let_def)

lemma same_history_fold:
  "(\<And>x m. same_history m (g x m)) \<Longrightarrow> same_history m (fold g xs m)"
proof (induction xs arbitrary: m)
  case Nil
  show ?case by simp
next
  case (Cons x xs)
  have "same_history m (g x m)" by (rule Cons.prems)
  moreover have "same_history (g x m) (fold g xs (g x m))"
    by (rule Cons.IH) (rule Cons.prems)
  ultimately show ?case using same_history_trans by simp
qed

lemma same_history_template_step:
  "same_history (fst st) (fst (apply_template_to_category tb items entry st))"
  by (cases st; cases entry)
    (auto simp: apply_template_to_category_def split_def Let_def split: option.splits)

lemma same_history_template_fold:
  "same_history (fst st) (fst (fold (apply_template_to_category tb items) entries st))"
proof (induction entries arbitrary: st)
  case Nil
  show ?case by simp
next
  case (Cons e entries)
  show ?case
    using same_history_trans [OF same_history_template_step [of st tb items e]
        Cons.IH [of "apply_template_to_category tb items e st"]]
    by simp
qed

lemma pushed_save: "elements_of m \<noteq> [] \<Longrightarrow> pushed m (save_state_for_undo d m)"
  by (simp add: pushed_def save_state_for_undo_def)

lemma pushed_same: "pushed m a \<Longrightarrow> same_history a b \<Longrightarrow> pushed m b"
  by (simp add: pushed_def same_history_def)

lemma save_noop: "elements_of m = [] \<Longrightarrow> save_state_for_undo d m = m"
  by (simp add: save_state_for_undo_def)

lemma add_items_history:
  "add_items_to_category items k t m = (b, m') \<Longrightarrow> same_history m m' \<or> pushed m m'"
proof -
  assume a: "add_items_to_category items k t m = (b, m')"
  show ?thesis
  proof (cases "\<exists>c cs. t = Some (c # cs)")
    case True
    then obtain c cs where t: "t = Some (c # cs)" by blast
    show ?thesis
    proof (cases "elements_of m = []")
      case True
      with a t show ?thesis by (simp add: add_items_to_category_def)
    next
      case False
      define tb where "tb = template_base_name_of (c # cs)"
      define d where "d = ''Template: Applied '' @ [CHR 0x27] @ (c # cs) @ [CHR 0x27] @ '' to ''
                               @ str_of_nat (length items) @ '' items''"
      define m1 where "m1 = save_state_for_undo d m"
      define st where "st = fold (apply_template_to_category tb items)
                     (fold (collect_variations tb) (elements_of m) []) (m1, False, [])"
      define m3 where "m3 = fold (\<lambda>k. update_property k regenerate_raw_value) (snd (snd st)) (fst st)"
      have p1: "pushed m m1" unfolding m1_def by (rule pushed_save [OF False])
      have "same_history (fst (m1, False, []::string list)) (fst st)"
        unfolding st_def by (rule same_history_template_fold)
      then have s2: "same_history m1 (fst st)" by simp
      have s3: "same_history (fst st) m3"
        unfolding m3_def by (rule same_history_fold) simp
      have p3: "pushed m m3"
        using pushed_same [OF pushed_same [OF p1 s2] s3] .
      have "m' = m3 \<or> m' = build_lookup_sets (build_suggestion_index m3)"
        using a t False
        unfolding add_items_to_category_def m3_def st_def m1_def d_def tb_def
        by (auto simp: Let_def split_def split: if_splits)
      then show ?thesis
      proof
        assume "m' = m3" with p3 show ?thesis by simp
      next
        assume e: "m' = build_lookup_sets (build_suggestion_index m3)"
        have "same_history m3 m'"
          unfolding e using same_history_trans [OF same_history_index same_history_lookup] .
        with p3 show ?thesis using pushed_same by blast
      qed
    qed
  next
    case False
    then have t: "t = None \<or> t = Some []"
    proof (cases t)
      case None
      then show ?thesis by simp
    next
      case (Some a)
      with False show ?thesis by (cases a) auto
    qed
    show ?thesis
    proof (cases "find_property m k")
      case None
      with a t show ?thesis by (auto simp: add_items_to_category_def)
    next
      case (Some p)
      show ?thesis
      proof (cases "list_all (\<lambda>item. item \<in> set (all_items p)) items")
        case True
        with a t Some show ?thesis by (auto simp: add_items_to_category_def)
      next
        case nall: False
        define d where "d = ''Added '' @ str_of_nat (length items) @ '' items to ''
                                   @ [CHR 0x27] @ k @ [CHR 0x27]"
        define m1 where "m1 = save_state_for_undo d m"
        define m2 where "m2 = fold (\<lambda>item. update_property k (add_item item (mod_id_of item))) items m1"
        define m3 where "m3 = update_property k regenerate_raw_value m2"
        have ne: "elements_of m \<noteq> []"
          using Some by (cases "elements_of m") (auto simp: find_property_def)
        have p1: "pushed m m1" unfolding m1_def by (rule pushed_save [OF ne])
        have s2: "same_history m1 m2" unfolding m2_def by (rule same_history_fold) simp
        have s3: "same_history m2 m3" unfolding m3_def by simp
        have e: "m' = build_lookup_sets (build_suggestion_index m3)"
          using a t Some nall
          unfolding add_items_to_category_def m3_def m2_def m1_def d_def
          by (auto simp: Let_def)
        have "same_history m3 m'"
          unfolding e using same_history_trans [OF same_history_index same_history_lookup] .
        then show ?thesis
          using pushed_same [OF pushed_same [OF pushed_same [OF p1 s2] s3]] by blast
      qed
    qed
  qed
qed

lemma sort_category_history:
  assumes "sort_category k m = Inr m'"
    and "length (history_stack m') = Suc (length (history_stack m))"
  shows "pushed m m'"
proof (cases "find_property m k")
  case (Some p)
  define d where "d = ''Sorted category '' @ [CHR 0x27] @ k @ [CHR 0x27]"
  have ne: "elements_of m \<noteq> []"
    using Some by (cases "elements_of m") (auto simp: find_property_def)
  have fp: "find_property (save_state_for_undo d m) k = Some p"
    using Some by (simp add: find_property_def)
  have "m' = update_property k (\<lambda>p. regenerate_raw_value (sort_items_alphabetically p))
               (save_state_for_undo d m)"
    using assms(1) fp unfolding sort_category_def d_def by (simp add: Let_def)
  then show ?thesis
    using pushed_same [OF pushed_save [OF ne, of d]] by simp
next
  case None
  define d where "d = ''Sorted category '' @ [CHR 0x27] @ k @ [CHR 0x27]"
  have fp: "find_property (save_state_for_undo d m) k = None"
    using None by (simp add: find_property_def)
  have "length (history_stack m') \<le> length (history_stack m)"
    using assms(1) fp unfolding sort_category_def d_def [symmetric]
    by (auto simp: Let_def save_state_for_undo_def split: if_splits)
  with assms(2) show ?thesis by simp
qed

lemma create_new_category_history:
  assumes "create_new_category k m = Inr m'"
    and "length (history_stack m') = Suc (length (history_stack m))"
  shows "pushed m m'"
proof (cases "find_property m k = None \<and> elements_of m \<noteq> []")
  case True
  define d where "d = ''Created category '' @ [CHR 0x27] @ k @ [CHR 0x27]"
  from True obtain els where els: "modified_elements m = Some els"
    by (auto simp: elements_of_def split: option.splits)
  have "\<exists>els2. m' = build_suggestion_index ((save_state_for_undo d m)\<lparr>modified_elements := Some els2\<rparr>)"
    using assms(1) True els unfolding create_new_category_def d_def [symmetric]
    by (auto simp: Let_def)
  then obtain els2 where e: "m' = build_suggestion_index ((save_state_for_undo d m)\<lparr>modified_elements := Some els2\<rparr>)"
    by blast
  have "pushed m ((save_state_for_undo d m)\<lparr>modified_elements := Some els2\<rparr>)"
    using pushed_save [of m d] True by (simp add: pushed_def)
  then show ?thesis unfolding e using pushed_same same_history_index by blast
next
  case False
  define d where "d = ''Created category '' @ [CHR 0x27] @ k @ [CHR 0x27]"
  have "length (history_stack m') = length (history_stack m)"
  proof (cases "find_property m k = None")
    case False
    with assms(1) show ?thesis by (auto simp: create_new_category_def)
  next
    case True
    with False have emp: "elements_of m = []" by simp
    have m1: "save_state_for_undo d m = m" by (rule save_noop [OF emp])
    have "\<exists>els2. m' = build_suggestion_index (m\<lparr>modified_elements := Some els2\<rparr>)"
      using assms(1) True unfolding create_new_category_def d_def [symmetric] m1 Let_def
      by (cases "modified_elements m") auto
    then obtain els2 where "m' = build_suggestion_index (m\<lparr>modified_elements := Some els2\<rparr>)"
      by blast
    then show ?thesis
      by (simp add: build_suggestion_index_def split_def Let_def)
  qed
  with assms(2) show ?thesis by simp
qed

lemma apply_operation_history:
  assumes "apply_operation oper m = Inr m'"
    and "length (history_stack m') = Suc (length (history_stack m))"
  shows "pushed m m'"
proof (cases oper)
  case (AddItems items k t)
  with assms(1) obtain b where "add_items_to_category items k t m = (b, m')"
    by (cases "add_items_to_category items k t m") (simp add: apply_operation_def)
  from add_items_history [OF this] assms(2) show ?thesis
    by (auto simp: same_history_def)
next
  case (SortCategory k)
  with assms show ?thesis by (simp add: apply_operation_def sort_category_history)
next
  case (CreateCategory k)
  with assms show ?thesis by (simp add: apply_operation_def create_new_category_history)
qed

lemma run_recorded_history:
  "run_recorded opers m = Some m' \<Longrightarrow>
   \<exists>snaps. history_stack m' = history_stack m @ snaps \<and> length snaps = length opers
     \<and> (opers \<noteq> [] \<longrightarrow> hd snaps = modified_elements m \<and> redo_stack m' = [])
     \<and> length (history_descriptions m') = length (history_descriptions m) + length opers
     \<and> original_elements m' = original_elements m"
proof (induction opers arbitrary: m)
  case Nil
  then show ?case by simp
next
  case (Cons oper opers)
  from Cons.prems obtain m1 where a: "apply_operation oper m = Inr m1"
    and l: "length (history_stack m1) = Suc (length (history_stack m))"
    and r: "run_recorded opers m1 = Some m'"
    by (auto split: sum.splits if_splits)
  have p: "pushed m m1" by (rule apply_operation_history [OF a l])
  from Cons.IH [OF r] obtain snaps where s: "history_stack m' = history_stack m1 @ snaps"
    "length snaps = length opers"
    "opers \<noteq> [] \<longrightarrow> hd snaps = modified_elements m1 \<and> redo_stack m' = []"
    "length (history_descriptions m') = length (history_descriptions m1) + length opers"
    "original_elements m' = original_elements m1" by blast
  have redo: "redo_stack m' = []"
  proof (cases opers)
    case Nil
    with r p show ?thesis by (simp add: pushed_def)
  next
    case (Cons a list)
    with s(3) show ?thesis by simp
  qed
  show ?case
    using p s(1,2,4,5) redo
    by (intro exI [of _ "modified_elements m # snaps"]) (simp add: pushed_def)
qed

lemma repeat_undo:
  "history_stack m = H @ snaps \<Longrightarrow> length snaps \<le> length (history_descriptions m) \<Longrightarrow>
   \<exists>u. repeat_call (length snaps) undo m = Inr u
     \<and> modified_elements u = hd (snaps @ [modified_elements m])
     \<and> history_stack u = H
     \<and> redo_stack u = redo_stack m @ rev (tl (snaps @ [modified_elements m]))
     \<and> original_elements u = original_elements m"
proof (induction snaps arbitrary: m rule: rev_induct)
  case Nil
  then show ?case by simp
next
  case (snoc x snaps)
  define m1 where "m1 = build_suggestion_index
     (m\<lparr>redo_stack := redo_stack m @ [modified_elements m], modified_elements := x,
        history_stack := H @ snaps, history_descriptions := butlast (history_descriptions m)\<rparr>)"
  from snoc.prems(2) have d: "history_descriptions m \<noteq> []" by auto
  have u1: "undo m = Inr m1"
    using snoc.prems(1) d by (simp add: undo_def m1_def Let_def butlast_append)
  have f: "history_stack m1 = H @ snaps" "modified_elements m1 = x"
    "redo_stack m1 = redo_stack m @ [modified_elements m]"
    "original_elements m1 = original_elements m"
    "history_descriptions m1 = butlast (history_descriptions m)"
    using same_history_index [of "m\<lparr>redo_stack := redo_stack m @ [modified_elements m],
        modified_elements := x, history_stack := H @ snaps,
        history_descriptions := butlast (history_descriptions m)\<rparr>"]
    by (simp_all add: m1_def same_history_def)
  have l: "length snaps \<le> length (history_descriptions m1)"
    using snoc.prems(2) f(5) by simp
  from snoc.IH [OF f(1) l] obtain u where u: "repeat_call (length snaps) undo m1 = Inr u"
    "modified_elements u = hd (snaps @ [modified_elements m1])"
    "history_stack u = H"
    "redo_stack u = redo_stack m1 @ rev (tl (snaps @ [modified_elements m1]))"
    "original_elements u = original_elements m1" by blast
  have "repeat_call (length (snaps @ [x])) undo m = Inr u"
    using u1 u(1) by simp
  moreover have "modified_elements u = hd ((snaps @ [x]) @ [modified_elements m])"
    using u(2) f(2) by (cases snaps) simp_all
  moreover have "redo_stack u = redo_stack m @ rev (tl ((snaps @ [x]) @ [modified_elements m]))"
    using u(4) f(2,3) by (cases snaps) simp_all
  ultimately show ?case
    using u(3,5) f(4) by (intro exI [of _ u]) simp
qed

lemma repeat_redo:
  "redo_stack m = R @ rev xs \<Longrightarrow>
   \<exists>r. repeat_call (length xs) redo m = Inr r
     \<and> modified_elements r = last (modified_elements m # xs)
     \<and> redo_stack r = R
     \<and> original_elements r = original_elements m"
proof (induction xs arbitrary: m)
  case Nil
  then show ?case by simp
next
  case (Cons x xs)
  define m1 where "m1 = build_suggestion_index
     (m\<lparr>history_stack := history_stack m @ [modified_elements m], modified_elements := x,
        redo_stack := R @ rev xs\<rparr>)"
  have r1: "redo m = Inr m1"
    using Cons.prems by (simp add: redo_def m1_def butlast_append)
  have f: "redo_stack m1 = R @ rev xs" "modified_elements m1 = x"
    "original_elements m1 = original_elements m"
    using same_history_index [of "m\<lparr>history_stack := history_stack m @ [modified_elements m],
        modified_elements := x, redo_stack := R @ rev xs\<rparr>"]
    by (simp_all add: m1_def same_history_def)
  from Cons.IH [OF f(1)] obtain r where r: "repeat_call (length xs) redo m1 = Inr r"
    "modified_elements r = last (modified_elements m1 # xs)" "redo_stack r = R"
    "original_elements r = original_elements m1" by blast
  show ?case
    using r1 r f(2,3) by (intro exI [of _ r]) simp
qed

text \<open>
  Claim C2. Take any manager and any list of \<open>N\<close> operations (adding items in either mode,
  sorting a category, creating a category) each of which returns and records history. Then
  \<open>N\<close> calls of \<open>undo\<close> all return, and leave as the modified document the one from before
  the operations, with the original document as it was; after them \<open>N\<close> calls of \<open>redo\<close>
  return and leave the modified document that the operations had produced.
\<close>

theorem undo_redo_symmetry:
  assumes "run_recorded opers m = Some m'"
  shows "\<exists>u r. repeat_call (length opers) undo m' = Inr u
      \<and> modified_elements u = modified_elements m
      \<and> original_elements u = original_elements m
      \<and> repeat_call (length opers) redo u = Inr r
      \<and> modified_elements r = modified_elements m'"
proof (cases opers)
  case Nil
  with assms show ?thesis by simp
next
  case (Cons oper rest)
  from run_recorded_history [OF assms] Cons obtain snaps where
    s: "history_stack m' = history_stack m @ snaps" "length snaps = length opers"
    "hd snaps = modified_elements m" "redo_stack m' = []"
    "length (history_descriptions m') = length (history_descriptions m) + length opers"
    "original_elements m' = original_elements m" by auto
  have ne: "snaps \<noteq> []" using s(2) Cons by auto
  have l: "length snaps \<le> length (history_descriptions m')" using s(2,5) by simp
  from repeat_undo [OF s(1) l] obtain u where u: "repeat_call (length snaps) undo m' = Inr u"
    "modified_elements u = hd (snaps @ [modified_elements m'])"
    "redo_stack u = redo_stack m' @ rev (tl (snaps @ [modified_elements m']))"
    "original_elements u = original_elements m'" by blast
  define xs where "xs = tl (snaps @ [modified_elements m'])"
  have lx: "length xs = length opers" using s(2) by (simp add: xs_def)
  have ru: "redo_stack u = [] @ rev xs" using u(3) s(4) by (simp add: xs_def)
  from repeat_redo [OF ru] obtain r where r: "repeat_call (length xs) redo u = Inr r"
    "modified_elements r = last (modified_elements u # xs)" by blast
  have "modified_elements u # xs = snaps @ [modified_elements m']"
    using u(2) ne by (cases snaps) (simp_all add: xs_def)
  then have "modified_elements r = modified_elements m'" using r(2) by simp
  moreover have "modified_elements u = modified_elements m" using u(2) ne s(3) by simp
  ultimately show ?thesis
    using u(1,4) r(1) s(2,6) lx by (intro exI [of _ u] exI [of _ r]) simp
qed

text \<open>The theorem on a loaded file: three recorded operations, three undos, three redos.\<close>

theorem undo_redo_symmetry_witness:
  "run_recorded sample_operations unsorted_manager \<noteq> None
   \<and> length sample_operations = 3
   \<and> (\<exists>u r. repeat_call (length sample_operations) undo
               (the (run_recorded sample_operations unsorted_manager)) = Inr u
      \<and> modified_elements u = modified_elements unsorted_manager
      \<and> original_elements u = original_elements unsorted_manager
      \<and> repeat_call (length sample_operations) redo u = Inr r
      \<and> modified_elements r
          = modified_elements (the (run_recorded sample_operations unsorted_manager)))"
proof -
  have h0: "run_recorded sample_operations unsorted_manager \<noteq> None" by code_simp
  then have h1: "run_recorded sample_operations unsorted_manager
      = Some (the (run_recorded sample_operations unsorted_manager))" by simp
  have h2: "length sample_operations = 3" by (simp add: sample_operations_def)
  show ?thesis
    using undo_redo_symmetry [OF h1] h0 h2 by simp
qed

section \<open>Template propagation\<close>

lemma map_of_dict_modify:
  "map_of (dict_modify k f d) k' = (if k' = k then map_option f (map_of d k) else map_of d k')"
  by (induction d) (auto simp: dict_modify_def)

lemma map_of_dict_setdefault:
  "map_of (dict_setdefault k v d) k' =
     (if k' = k \<and> map_of d k = None then Some v else map_of d k')"
proof (cases "k \<in> set (dict_keys d)")
  case True
  then have "map_of d k \<noteq> None"
    by (simp add: dict_keys_def map_of_eq_None_iff)
  with True show ?thesis by (simp add: dict_setdefault_def)
next
  case False
  then have n: "map_of d k = None"
    by (simp add: dict_keys_def map_of_eq_None_iff)
  have "map_of (d @ [(k, v)]) k' = (if k' = k then Some v else map_of d k')"
    using n by (cases "map_of d k'") (auto simp: map_add_def)
  with False n show ?thesis by (simp add: dict_setdefault_def)
qed

lemma vars_of_dict_append:
  "vars_of (dict_append k v d) k' = (if k' = k then vars_of d k @ [v] else vars_of d k')"
  by (auto simp: vars_of_def dict_append_def map_of_dict_modify map_of_dict_setdefault
      split: option.splits)

lemma dom_dict_append: "dom (map_of (dict_append k v d)) = insert k (dom (map_of d))"
  by (auto simp: dict_append_def map_of_dict_modify map_of_dict_setdefault dom_def
      split: if_splits)

lemma collect_items_vars:
  "set (vars_of (fold (\<lambda>item d. if str_startswith item tb then dict_append k item d else d) xs d) k')
     = set (vars_of d k') \<union> (if k' = k then {x \<in> set xs. str_startswith x tb} else {})"
  by (induction xs arbitrary: d) (auto simp: vars_of_dict_append)

lemma collect_items_dom:
  "dom (map_of (fold (\<lambda>item d. if str_startswith item tb then dict_append k item d else d) xs d))
     = dom (map_of d) \<union> (if \<exists>x\<in>set xs. str_startswith x tb then {k} else {})"
  by (induction xs arbitrary: d) (auto simp: dom_dict_append)

lemma collect_variations_vars:
  "set (vars_of (fold (collect_variations tb) els d) k)
     = set (vars_of d k)
       \<union> {x. \<exists>q. Property q \<in> set els \<and> key q = k \<and> x \<in> set (all_items q) \<and> str_startswith x tb}"
proof (induction els arbitrary: d)
  case Nil
  show ?case by simp
next
  case (Cons e els)
  show ?case
  proof (cases e)
    case (Property q)
    show ?thesis
      unfolding Property fold_Cons comp_apply Cons.IH collect_variations.simps collect_items_vars
      by auto
  qed (simp_all add: Cons.IH)
qed

lemma collect_variations_dom:
  "dom (map_of (fold (collect_variations tb) els d))
     = dom (map_of d)
       \<union> {key q |q. Property q \<in> set els \<and> (\<exists>x\<in>set (all_items q). str_startswith x tb)}"
proof (induction els arbitrary: d)
  case Nil
  show ?case by simp
next
  case (Cons e els)
  show ?case
  proof (cases e)
    case (Property q)
    show ?thesis
      unfolding Property fold_Cons comp_apply Cons.IH collect_variations.simps collect_items_dom
      by auto
  qed (simp_all add: Cons.IH)
qed

lemma add_item_items: "set (all_items (add_item x g p)) = insert x (set (all_items p))"
  by (auto simp: add_item_def Let_def set_add_def)

lemma add_item_key: "key (add_item x g p) = key p"
  by (simp add: add_item_def Let_def)

lemma add_variation_item_props:
  "key (fst (add_variation_item sfx b st)) = key (fst st)
   \<and> set (all_items (fst (add_variation_item sfx b st))) = insert (b @ sfx) (set (all_items (fst st)))"
  by (cases st) (auto simp: add_variation_item_def Let_def add_item_items add_item_key)

lemma fold_add_variation_item:
  "key (fst (fold (add_variation_item sfx) bs st)) = key (fst st)
   \<and> set (all_items (fst (fold (add_variation_item sfx) bs st)))
       = set (all_items (fst st)) \<union> (\<lambda>b. b @ sfx) ` set bs"
  by (induction bs arbitrary: st) (auto simp: add_variation_item_props)

lemma add_variation_props:
  "key (fst (add_variation tb items v st)) = key (fst st)
   \<and> set (all_items (fst (add_variation tb items v st)))
       = set (all_items (fst st)) \<union> (\<lambda>b. b @ suffix_of tb v) ` set items"
  by (simp add: add_variation_def suffix_of_def fold_add_variation_item)

lemma fold_add_variation:
  "key (fst (fold (add_variation tb items) vs st)) = key (fst st)
   \<and> set (all_items (fst (fold (add_variation tb items) vs st)))
       = set (all_items (fst st)) \<union> {b @ suffix_of tb v |b v. b \<in> set items \<and> v \<in> set vs}"
proof (induction vs arbitrary: st)
  case Nil
  show ?case by simp
next
  case (Cons v vs)
  show ?case
    unfolding fold_Cons comp_apply
    using Cons.IH [of "add_variation tb items v st"] add_variation_props [of tb items v st]
    by auto
qed

lemma find_in_update_in:
  "\<forall>p. key p = c \<longrightarrow> key (f p) = c \<Longrightarrow>
   find_in k (update_in c f els) = (if k = c then map_option f (find_in k els) else find_in k els)"
proof (induction els)
  case Nil
  show ?case by simp
next
  case (Cons e els)
  then show ?case by (cases e) auto
qed

lemma find_in_exists: "Property q \<in> set els \<Longrightarrow> \<exists>p. find_in (key q) els = Some p"
proof (induction els)
  case Nil
  then show ?case by simp
next
  case (Cons e els)
  then show ?case by (cases e) auto
qed

lemma elements_of_update [simp]:
  "elements_of (update_property c f m) = update_in c f (elements_of m)"
  by (cases "modified_elements m") (simp_all add: elements_of_def update_property_def)

lemma elements_of_index [simp]: "elements_of (build_suggestion_index m) = elements_of m"
  by (simp add: elements_of_def)

lemma elements_of_lookup [simp]: "elements_of (build_lookup_sets m) = elements_of m"
  by (simp add: elements_of_def build_lookup_sets_def Let_def)

lemma step_find:
  "find_property (fst (apply_template_to_category tb items (c, vars) st)) k =
     (if k = c
      then map_option (\<lambda>tp. fst (fold (add_variation tb items) vars (tp, False)))
             (find_property (fst st) c)
      else find_property (fst st) k)"
proof (cases "find_property (fst st) c")
  case None
  then show ?thesis
    by (cases st) (simp add: apply_template_to_category_def)
next
  case (Some tp)
  obtain m b ks where st: "st = (m, b, ks)" by (cases st) auto
  define p' where "p' = fst (fold (add_variation tb items) vars (tp, False))"
  have ktp: "key tp = c" using Some st by (simp add: find_property_def find_in_key)
  have kp': "key p' = c" using fold_add_variation [of tb items vars "(tp, False)"] ktp
    by (simp add: p'_def)
  have "fst (apply_template_to_category tb items (c, vars) st) = update_property c (\<lambda>_. p') m"
    using Some st by (simp add: apply_template_to_category_def split_def Let_def p'_def)
  then show ?thesis
    using Some st kp' by (simp add: find_property_def find_in_update_in p'_def)
qed

lemma fold_find:
  "find_property (fst st) k = Some p \<Longrightarrow>
   \<exists>p'. find_property (fst (fold (apply_template_to_category tb items) D st)) k = Some p'
     \<and> key p' = key p \<and> set (all_items p) \<subseteq> set (all_items p')
     \<and> (\<forall>vars v b. (k, vars) \<in> set D \<and> v \<in> set vars \<and> b \<in> set items
           \<longrightarrow> b @ suffix_of tb v \<in> set (all_items p'))"
proof (induction D arbitrary: st p)
  case Nil
  then show ?case by simp
next
  case (Cons e D)
  obtain c vars where e: "e = (c, vars)" by (cases e) auto
  define st1 where "st1 = apply_template_to_category tb items (c, vars) st"
  define p1 where "p1 = (if k = c then fst (fold (add_variation tb items) vars (p, False)) else p)"
  have f1: "find_property (fst st1) k = Some p1"
    unfolding st1_def step_find p1_def using Cons.prems by auto
  have k1: "key p1 = key p" and s1: "set (all_items p) \<subseteq> set (all_items p1)"
    and n1: "k = c \<longrightarrow> (\<forall>v b. v \<in> set vars \<and> b \<in> set items \<longrightarrow> b @ suffix_of tb v \<in> set (all_items p1))"
    using fold_add_variation [of tb items vars "(p, False)"] by (auto simp: p1_def)
  from Cons.IH [OF f1] obtain p' where p':
    "find_property (fst (fold (apply_template_to_category tb items) D st1)) k = Some p'"
    "key p' = key p1" "set (all_items p1) \<subseteq> set (all_items p')"
    "\<forall>vars v b. (k, vars) \<in> set D \<and> v \<in> set vars \<and> b \<in> set items
           \<longrightarrow> b @ suffix_of tb v \<in> set (all_items p')" by blast
  have "\<forall>vars' v b. (k, vars') \<in> set (e # D) \<and> v \<in> set vars' \<and> b \<in> set items
           \<longrightarrow> b @ suffix_of tb v \<in> set (all_items p')"
    using p'(3,4) n1 e by auto
  then show ?case
    using p'(1,2,3) k1 s1 unfolding e fold_Cons comp_apply st1_def [symmetric]
    by (intro exI [of _ p']) auto
qed

lemma find_regenerate_fold:
  "find_property m k = Some p \<Longrightarrow>
   \<exists>p'. find_property (fold (\<lambda>c. update_property c regenerate_raw_value) ks m) k = Some p'
     \<and> all_items p' = all_items p \<and> key p' = key p"
proof (induction ks arbitrary: m p)
  case Nil
  then show ?case by simp
next
  case (Cons c ks)
  define p1 where "p1 = (if k = c then regenerate_raw_value p else p)"
  have "find_property (update_property c regenerate_raw_value m) k = Some p1"
    using Cons.prems
    by (auto simp: find_property_def find_in_update_in regenerate_raw_value_frame p1_def)
  from Cons.IH [OF this] show ?case
    by (auto simp: p1_def regenerate_raw_value_frame split: if_splits)
qed

lemma template_result:
  assumes "t = c0 # cs" and "elements_of m \<noteq> []"
  shows "\<exists>d. elements_of (snd (add_items_to_category items c (Some t) m))
    = elements_of (fold (\<lambda>k. update_property k regenerate_raw_value)
        (snd (snd (template_state (template_base_name_of t) items d m)))
        (fst (template_state (template_base_name_of t) items d m)))"
  using assms
  by (intro exI [of _ "''Template: Applied '' @ [CHR 0x27] @ t @ [CHR 0x27] @ '' to ''
         @ str_of_nat (length items) @ '' items''"])
    (simp add: add_items_to_category_def template_state_def Let_def split_def)

lemma template_add_general:
  assumes t: "t = c0 # cs" and q: "Property q \<in> set (elements_of m)"
  shows "\<exists>p'. find_property (snd (add_items_to_category items c (Some t) m)) (key q) = Some p'
     \<and> (\<forall>v b. v \<in> set (all_items q) \<and> str_startswith v (template_base_name_of t) \<and> b \<in> set items
           \<longrightarrow> b @ suffix_of (template_base_name_of t) v \<in> set (all_items p'))"
proof -
  define tb where "tb = template_base_name_of t"
  define D where "D = fold (collect_variations tb) (elements_of m) []"
  have ne: "elements_of m \<noteq> []" using q by auto
  from template_result [OF t ne, of items c] obtain d where
    res: "elements_of (snd (add_items_to_category items c (Some t) m))
      = elements_of (fold (\<lambda>k. update_property k regenerate_raw_value)
          (snd (snd (template_state tb items d m))) (fst (template_state tb items d m)))"
    unfolding tb_def by blast
  define st where "st = (save_state_for_undo d m, False, []::string list)"
  from find_in_exists [OF q] obtain p0 where p0: "find_property (fst st) (key q) = Some p0"
    by (auto simp: find_property_def st_def)
  from fold_find [OF p0, of tb items D] obtain p1 where p1:
    "find_property (fst (fold (apply_template_to_category tb items) D st)) (key q) = Some p1"
    "\<forall>vars v b. (key q, vars) \<in> set D \<and> v \<in> set vars \<and> b \<in> set items
           \<longrightarrow> b @ suffix_of tb v \<in> set (all_items p1)" by blast
  have ts: "template_state tb items d m = fold (apply_template_to_category tb items) D st"
    by (simp add: template_state_def D_def st_def)
  from find_regenerate_fold [OF p1(1), of "snd (snd (template_state tb items d m))"]
  obtain p' where p': "find_property (fold (\<lambda>c. update_property c regenerate_raw_value)
        (snd (snd (template_state tb items d m))) (fst (template_state tb items d m))) (key q) = Some p'"
    "all_items p' = all_items p1"
    unfolding ts by blast
  have f: "find_property (snd (add_items_to_category items c (Some t) m)) (key q) = Some p'"
    using p'(1) res by (simp add: find_property_def)
  have "\<forall>v b. v \<in> set (all_items q) \<and> str_startswith v tb \<and> b \<in> set items
           \<longrightarrow> b @ suffix_of tb v \<in> set (all_items p')"
  proof (intro allI impI)
    fix v b assume a: "v \<in> set (all_items q) \<and> str_startswith v tb \<and> b \<in> set items"
    then have "v \<in> set (vars_of D (key q))"
      unfolding D_def collect_variations_vars using q by auto
    then obtain vars where "map_of D (key q) = Some vars" "v \<in> set vars"
      by (cases "map_of D (key q)") (auto simp: vars_of_def)
    then have "(key q, vars) \<in> set D" "v \<in> set vars" by (auto dest: map_of_SomeD)
    with p1(2) a show "b @ suffix_of tb v \<in> set (all_items p')" unfolding p'(2) by blast
  qed
  with f show ?thesis unfolding tb_def by blast
qed

lemma find_in_append:
  "find_in k pre = None \<Longrightarrow> key p = k \<Longrightarrow> find_in k (pre @ Property p # post) = Some p"
proof (induction pre)
  case Nil
  then show ?case by simp
next
  case (Cons e pre)
  then show ?case by (cases e) (auto split: if_splits)
qed

lemma update_in_append:
  "find_in k pre = None \<Longrightarrow> key p = k \<Longrightarrow>
   update_in k f (pre @ Property p # post) = pre @ Property (f p) # post"
proof (induction pre)
  case Nil
  then show ?case by simp
next
  case (Cons e pre)
  then show ?case by (cases e) (auto split: if_splits)
qed

lemma step_frame:
  assumes "find_in k pre = None" and "elements_of (fst st) = pre @ Property p # post"
    and "key p = k" and "set (snd (snd st)) \<subseteq> {k}"
  shows "\<exists>p'. elements_of (fst (apply_template_to_category tb items (k, vars) st))
        = pre @ Property p' # post \<and> key p' = k
      \<and> set (snd (snd (apply_template_to_category tb items (k, vars) st))) \<subseteq> {k}"
proof -
  obtain m b ks where st: "st = (m, b, ks)" by (cases st) auto
  define p' where "p' = fst (fold (add_variation tb items) vars (p, False))"
  have f: "find_property m k = Some p"
    using assms(1,2,3) st by (simp add: find_property_def find_in_append)
  have kp': "key p' = k"
    using fold_add_variation [of tb items vars "(p, False)"] assms(3) by (simp add: p'_def)
  have "fst (apply_template_to_category tb items (k, vars) st) = update_property k (\<lambda>_. p') m"
    using f st by (simp add: apply_template_to_category_def split_def Let_def p'_def)
  then have "elements_of (fst (apply_template_to_category tb items (k, vars) st))
      = pre @ Property p' # post"
    using assms(1,2,3) st by (simp add: update_in_append)
  moreover have "set (snd (snd (apply_template_to_category tb items (k, vars) st))) \<subseteq> {k}"
    using f st assms(4)
    by (auto simp: apply_template_to_category_def split_def Let_def set_add_def split: if_splits)
  ultimately show ?thesis using kp' by blast
qed

lemma fold_frame:
  "\<forall>e\<in>set D. fst e = k \<Longrightarrow> find_in k pre = None \<Longrightarrow>
   elements_of (fst st) = pre @ Property p # post \<Longrightarrow> key p = k \<Longrightarrow> set (snd (snd st)) \<subseteq> {k} \<Longrightarrow>
   \<exists>p'. elements_of (fst (fold (apply_template_to_category tb items) D st))
        = pre @ Property p' # post \<and> key p' = k
      \<and> set (snd (snd (fold (apply_template_to_category tb items) D st))) \<subseteq> {k}"
proof (induction D arbitrary: st p)
  case Nil
  then show ?case by simp
next
  case (Cons e D)
  obtain vars where e: "e = (k, vars)" using Cons.prems(1) by (cases e) auto
  from step_frame [OF Cons.prems(2,3,4,5), of tb items vars] obtain p1 where p1:
    "elements_of (fst (apply_template_to_category tb items (k, vars) st)) = pre @ Property p1 # post"
    "key p1 = k"
    "set (snd (snd (apply_template_to_category tb items (k, vars) st))) \<subseteq> {k}" by blast
  have d: "\<forall>e\<in>set D. fst e = k" using Cons.prems(1) by simp
  from Cons.IH [OF d Cons.prems(2) p1] show ?case unfolding e by simp
qed

lemma regenerate_frame:
  "set ks \<subseteq> {k} \<Longrightarrow> find_in k pre = None \<Longrightarrow> elements_of m = pre @ Property p # post \<Longrightarrow>
   key p = k \<Longrightarrow>
   \<exists>p'. elements_of (fold (\<lambda>c. update_property c regenerate_raw_value) ks m)
        = pre @ Property p' # post \<and> key p' = k \<and> all_items p' = all_items p"
proof (induction ks arbitrary: m p)
  case Nil
  then show ?case by simp
next
  case (Cons c ks)
  from Cons.prems(1) have c: "c = k" and ks: "set ks \<subseteq> {k}" by auto
  have e1: "elements_of (update_property c regenerate_raw_value m)
      = pre @ Property (regenerate_raw_value p) # post"
    using Cons.prems(2,3,4) c by (simp add: update_in_append)
  have k1: "key (regenerate_raw_value p) = k"
    using Cons.prems(4) by (simp add: regenerate_raw_value_frame)
  from Cons.IH [OF ks Cons.prems(2) e1 k1] show ?case
    by (auto simp: regenerate_raw_value_frame)
qed

lemma template_add_frame:
  assumes t: "t = c0 # cs" and f: "find_property m k = Some p"
    and o: "\<forall>q'. Property q' \<in> set (elements_of m) \<and> key q' \<noteq> k
          \<longrightarrow> (\<forall>item\<in>set (all_items q'). \<not> str_startswith item (template_base_name_of t))"
  shows "\<exists>pre post p'. elements_of m = pre @ Property p # post \<and> find_in k pre = None
     \<and> elements_of (snd (add_items_to_category items c (Some t) m)) = pre @ Property p' # post
     \<and> key p' = k"
proof -
  define tb where "tb = template_base_name_of t"
  define D where "D = fold (collect_variations tb) (elements_of m) []"
  from find_in_split [of k "elements_of m" p id] f obtain pre post where
    sp: "elements_of m = pre @ Property p # post" "find_in k pre = None"
    by (auto simp: find_property_def)
  have kp: "key p = k" using f by (simp add: find_property_def find_in_key)
  have ne: "elements_of m \<noteq> []" using sp by simp
  from template_result [OF t ne, of items c] obtain d where
    res: "elements_of (snd (add_items_to_category items c (Some t) m))
      = elements_of (fold (\<lambda>k. update_property k regenerate_raw_value)
          (snd (snd (template_state tb items d m))) (fst (template_state tb items d m)))"
    unfolding tb_def by blast
  define st where "st = (save_state_for_undo d m, False, []::string list)"
  have ts: "template_state tb items d m = fold (apply_template_to_category tb items) D st"
    by (simp add: template_state_def D_def st_def)
  have "dom (map_of D) \<subseteq> {k}"
    unfolding D_def collect_variations_dom using o unfolding tb_def by auto
  then have dk: "\<forall>e\<in>set D. fst e = k"
    by (auto simp: dom_map_of_conv_image_fst)
  have e0: "elements_of (fst st) = pre @ Property p # post" using sp by (simp add: st_def)
  have k0: "set (snd (snd st)) \<subseteq> {k}" by (simp add: st_def)
  from fold_frame [OF dk sp(2) e0 kp k0, of tb items] obtain p1 where p1:
    "elements_of (fst (template_state tb items d m)) = pre @ Property p1 # post" "key p1 = k"
    "set (snd (snd (template_state tb items d m))) \<subseteq> {k}"
    unfolding ts by blast
  from regenerate_frame [OF p1(3) sp(2) p1(1,2)] obtain p' where
    "elements_of (fold (\<lambda>c. update_property c regenerate_raw_value)
        (snd (snd (template_state tb items d m))) (fst (template_state tb items d m)))
       = pre @ Property p' # post" "key p' = k" by blast
  with res sp show ?thesis by auto
qed

lemma template_base_name_ns_base: "template_base_name_of ''ns:base'' = ''ns:base''"
  by code_simp

lemma suffix_north: "suffix_of ''ns:base'' ''ns:base[facing=north]'' = ''[facing=north]''"
  by code_simp

lemma suffix_south: "suffix_of ''ns:base'' ''ns:base[facing=south]'' = ''[facing=south]''"
  by code_simp

lemma startswith_variants:
  "str_startswith ''ns:base[facing=north]'' ''ns:base''"
  "str_startswith ''ns:base[facing=south]'' ''ns:base''"
  by code_simp+

section \<open>Template propagation: groups, result and duplicated keys\<close>

lemma flat_setdefault:
  "set (concat (map snd (dict_setdefault g [] d))) = set (concat (map snd d))"
  by (simp add: dict_setdefault_def)

lemma flat_modify_append:
  "set (concat (map snd (dict_modify g (\<lambda>xs. xs @ [x]) d)))
     = set (concat (map snd d)) \<union> (if g \<in> set (map fst d) then {x} else {})"
proof (induction d)
  case Nil
  show ?case by (simp add: dict_modify_def)
next
  case (Cons e d)
  obtain k v where e: "e = (k, v)" by (cases e) auto
  have c: "dict_modify g (\<lambda>xs. xs @ [x]) (e # d)
      = (if k = g then (k, v @ [x]) else (k, v)) # dict_modify g (\<lambda>xs. xs @ [x]) d"
    by (simp add: dict_modify_def e)
  show ?case
    unfolding c using Cons.IH by (auto simp: e)
qed

lemma add_item_in_groups: "items_in_groups p \<Longrightarrow> items_in_groups (add_item x g p)"
proof -
  assume c: "items_in_groups p"
  have k: "g \<in> set (map fst (dict_setdefault g [] (item_groups p)))"
    by (auto simp: dict_setdefault_def dict_keys_def)
  show ?thesis
    using c k
    unfolding items_in_groups_def add_item_def Let_def
    by (auto simp: flat_modify_append flat_setdefault set_add_def simp del: set_map set_concat)
qed

lemma add_variation_item_in_groups:
  "items_in_groups (fst st) \<Longrightarrow> items_in_groups (fst (add_variation_item sfx b st))"
  by (cases st) (auto simp: add_variation_item_def Let_def add_item_in_groups)

lemma fold_add_variation_item_in_groups:
  "items_in_groups (fst st) \<Longrightarrow> items_in_groups (fst (fold (add_variation_item sfx) bs st))"
  by (induction bs arbitrary: st) (simp_all add: add_variation_item_in_groups)

lemma fold_add_variation_in_groups:
  "items_in_groups (fst st) \<Longrightarrow> items_in_groups (fst (fold (add_variation tb items) vs st))"
  by (induction vs arbitrary: st) (simp_all add: add_variation_def fold_add_variation_item_in_groups)

lemma fold_find_in_groups:
  "find_property (fst st) k = Some p \<Longrightarrow> items_in_groups p \<Longrightarrow>
   \<exists>p'. find_property (fst (fold (apply_template_to_category tb items) D st)) k = Some p'
     \<and> items_in_groups p'"
proof (induction D arbitrary: st p)
  case Nil
  then show ?case by simp
next
  case (Cons e D)
  obtain c vars where e: "e = (c, vars)" by (cases e) auto
  define p1 where "p1 = (if k = c then fst (fold (add_variation tb items) vars (p, False)) else p)"
  have f1: "find_property (fst (apply_template_to_category tb items (c, vars) st)) k = Some p1"
    unfolding step_find p1_def using Cons.prems(1) by auto
  have c1: "items_in_groups p1"
    using fold_add_variation_in_groups [of "(p, False)" tb items vars] Cons.prems(2)
    by (simp add: p1_def)
  from Cons.IH [OF f1 c1] show ?case by (simp add: e)
qed

lemma find_regenerate_fold_groups:
  "find_property m k = Some p \<Longrightarrow>
   \<exists>p'. find_property (fold (\<lambda>c. update_property c regenerate_raw_value) ks m) k = Some p'
     \<and> all_items p' = all_items p \<and> item_groups p' = item_groups p"
proof (induction ks arbitrary: m p)
  case Nil
  then show ?case by simp
next
  case (Cons c ks)
  define p1 where "p1 = (if k = c then regenerate_raw_value p else p)"
  have "find_property (update_property c regenerate_raw_value m) k = Some p1"
    using Cons.prems
    by (auto simp: find_property_def find_in_update_in regenerate_raw_value_frame p1_def)
  from Cons.IH [OF this] show ?case
    by (auto simp: p1_def regenerate_raw_value_frame split: if_splits)
qed

lemma template_add_in_groups:
  assumes t: "t = c0 # cs" and f: "find_property m k = Some p" and c: "items_in_groups p"
  shows "\<exists>p'. find_property (snd (add_items_to_category items c' (Some t) m)) k = Some p'
     \<and> items_in_groups p'"
proof -
  define tb where "tb = template_base_name_of t"
  have ne: "elements_of m \<noteq> []" using f by (cases "elements_of m") (auto simp: find_property_def)
  from template_result [OF t ne, of items c'] obtain d where
    res: "elements_of (snd (add_items_to_category items c' (Some t) m))
      = elements_of (fold (\<lambda>k. update_property k regenerate_raw_value)
          (snd (snd (template_state tb items d m))) (fst (template_state tb items d m)))"
    unfolding tb_def by blast
  define st where "st = (save_state_for_undo d m, False, []::string list)"
  have f0: "find_property (fst st) k = Some p" using f by (simp add: find_property_def st_def)
  have ts: "template_state tb items d m
      = fold (apply_template_to_category tb items) (fold (collect_variations tb) (elements_of m) []) st"
    by (simp add: template_state_def st_def)
  from fold_find_in_groups [OF f0 c] obtain p1 where p1:
    "find_property (fst (template_state tb items d m)) k = Some p1" "items_in_groups p1"
    unfolding ts by blast
  from find_regenerate_fold_groups [OF p1(1), of "snd (snd (template_state tb items d m))"]
  obtain p' where p': "find_property (fold (\<lambda>c. update_property c regenerate_raw_value)
        (snd (snd (template_state tb items d m))) (fst (template_state tb items d m))) k = Some p'"
    "all_items p' = all_items p1" "item_groups p' = item_groups p1" by blast
  have "find_property (snd (add_items_to_category items c' (Some t) m)) k = Some p'"
    using p'(1) res by (simp add: find_property_def)
  moreover have "items_in_groups p'" using p1(2) p'(2,3) by (simp add: items_in_groups_def)
  ultimately show ?thesis by blast
qed

subsection \<open>The result flag\<close>

lemma fold_unchanged:
  "(\<And>x s. \<not> snd (f x s) \<Longrightarrow> f x s = s) \<Longrightarrow> \<not> snd (fold f xs s) \<Longrightarrow> fold f xs s = s"
proof (induction xs arbitrary: s)
  case Nil
  show ?case by simp
next
  case (Cons x xs)
  have a: "fold f xs (f x s) = f x s"
    using Cons.IH [of "f x s"] Cons.prems by simp
  then have "\<not> snd (f x s)" using Cons.prems(2) by simp
  then have "f x s = s" by (rule Cons.prems(1))
  with a show ?case by simp
qed

lemma add_variation_item_unchanged:
  "\<not> snd (add_variation_item sfx b st) \<Longrightarrow> add_variation_item sfx b st = st"
  by (cases st) (auto simp: add_variation_item_def Let_def split: if_splits)

lemma add_variation_unchanged:
  "\<not> snd (add_variation tb items v st) \<Longrightarrow> add_variation tb items v st = st"
  unfolding add_variation_def by (rule fold_unchanged) (rule add_variation_item_unchanged)

lemma fold_add_variation_unchanged:
  "\<not> snd (fold (add_variation tb items) vs st) \<Longrightarrow> fold (add_variation tb items) vs st = st"
  by (rule fold_unchanged) (rule add_variation_unchanged)

lemma update_in_same: "find_in c els = Some tp \<Longrightarrow> update_in c (\<lambda>_. tp) els = els"
  using find_in_split [of c els tp "\<lambda>_. tp"] by auto

lemma step_unchanged:
  assumes "\<not> fst (snd (apply_template_to_category tb items e st))"
  shows "\<not> fst (snd st)
    \<and> elements_of (fst (apply_template_to_category tb items e st)) = elements_of (fst st)"
proof -
  obtain m b ks where st: "st = (m, b, ks)" by (cases st) auto
  obtain c vars where e: "e = (c, vars)" by (cases e) auto
  show ?thesis
  proof (cases "find_property m c")
    case None
    with assms show ?thesis by (simp add: st e apply_template_to_category_def)
  next
    case (Some tp)
    define r where "r = fold (add_variation tb items) vars (tp, False)"
    have res: "apply_template_to_category tb items e st
        = (update_property c (\<lambda>_. fst r) m, b \<or> snd r,
           if snd r then set_add c ks else ks)"
      using Some by (simp add: st e apply_template_to_category_def split_def Let_def r_def)
    from assms have nb: "\<not> b" and nr: "\<not> snd r" unfolding res by simp_all
    have "r = (tp, False)" using nr unfolding r_def by (rule fold_add_variation_unchanged)
    then have "update_in c (\<lambda>_. fst r) (elements_of m) = elements_of m"
      using Some by (simp add: find_property_def update_in_same)
    with nb show ?thesis unfolding res by (simp add: st)
  qed
qed

lemma fold_step_unchanged:
  "\<not> fst (snd (fold (apply_template_to_category tb items) D st)) \<Longrightarrow>
   elements_of (fst (fold (apply_template_to_category tb items) D st)) = elements_of (fst st)"
proof (induction D arbitrary: st)
  case Nil
  show ?case by simp
next
  case (Cons e D)
  have a: "elements_of (fst (fold (apply_template_to_category tb items) D
        (apply_template_to_category tb items e st)))
      = elements_of (fst (apply_template_to_category tb items e st))"
    using Cons.IH [of "apply_template_to_category tb items e st"] Cons.prems by simp
  have "\<not> fst (snd (apply_template_to_category tb items e st))"
  proof
    assume t: "fst (snd (apply_template_to_category tb items e st))"
    have mono: "\<And>D s. fst (snd s) \<Longrightarrow> fst (snd (fold (apply_template_to_category tb items) D s))"
    proof -
      fix D :: "(string \<times> string list) list" and s :: "manager \<times> bool \<times> string list"
      show "fst (snd s) \<Longrightarrow> fst (snd (fold (apply_template_to_category tb items) D s))"
      proof (induction D arbitrary: s)
        case Nil
        then show ?case by simp
      next
        case (Cons x D)
        have "fst (snd (apply_template_to_category tb items x s))"
          using Cons.prems step_unchanged [of tb items x s] by blast
        from Cons.IH [OF this] show ?case by simp
      qed
    qed
    from mono [OF t, of D] Cons.prems show False by simp
  qed
  from step_unchanged [OF this] a show ?case by simp
qed

lemma template_result_flag:
  assumes "t = c0 # cs" and "elements_of m \<noteq> []"
  shows "\<exists>d. fst (add_items_to_category items c (Some t) m)
      = fst (snd (template_state (template_base_name_of t) items d m))
    \<and> elements_of (snd (add_items_to_category items c (Some t) m))
      = elements_of (fold (\<lambda>k. update_property k regenerate_raw_value)
          (snd (snd (template_state (template_base_name_of t) items d m)))
          (fst (template_state (template_base_name_of t) items d m)))"
  using assms
  by (intro exI [of _ "''Template: Applied '' @ [CHR 0x27] @ t @ [CHR 0x27] @ '' to ''
         @ str_of_nat (length items) @ '' items''"])
    (simp add: add_items_to_category_def template_state_def Let_def split_def)

lemma template_add_false:
  assumes t: "t = c0 # cs" and f: "find_property m k = Some p"
    and r: "\<not> fst (add_items_to_category items c' (Some t) m)"
  shows "\<exists>p'. find_property (snd (add_items_to_category items c' (Some t) m)) k = Some p'
     \<and> all_items p' = all_items p"
proof -
  define tb where "tb = template_base_name_of t"
  have ne: "elements_of m \<noteq> []" using f by (cases "elements_of m") (auto simp: find_property_def)
  from template_result_flag [OF t ne, of items c'] obtain d where
    fl: "fst (add_items_to_category items c' (Some t) m) = fst (snd (template_state tb items d m))"
    and res: "elements_of (snd (add_items_to_category items c' (Some t) m))
      = elements_of (fold (\<lambda>k. update_property k regenerate_raw_value)
          (snd (snd (template_state tb items d m))) (fst (template_state tb items d m)))"
    unfolding tb_def by blast
  have "elements_of (fst (template_state tb items d m)) = elements_of m"
    using fold_step_unchanged [of tb items "fold (collect_variations tb) (elements_of m) []"
        "(save_state_for_undo d m, False, [])"] r fl
    by (simp add: template_state_def)
  then have f1: "find_property (fst (template_state tb items d m)) k = Some p"
    using f by (simp add: find_property_def)
  from find_regenerate_fold_groups [OF f1, of "snd (snd (template_state tb items d m))"]
  obtain p' where "find_property (fold (\<lambda>c. update_property c regenerate_raw_value)
        (snd (snd (template_state tb items d m))) (fst (template_state tb items d m))) k = Some p'"
    "all_items p' = all_items p" by blast
  then show ?thesis using res by (auto simp: find_property_def)
qed

lemma find_in_member: "find_in k els = Some p \<Longrightarrow> Property p \<in> set els"
  using find_in_split [of k els p id] by auto

text \<open>
  Claim C5, as the code has it. Let the property \<open>q\<close> be the one that its key finds (the first
  property with that key), let it hold the items \<open>ns:base[facing=north]\<close> and
  \<open>ns:base[facing=south]\<close>, and let each of its items stand in one of its groups. After
  \<open>add_items_to_category\<close> in template mode with the template item \<open>ns:base\<close> and the one new
  base item \<open>other:base\<close>, the property that the same key finds holds
  \<open>other:base[facing=north]\<close> and \<open>other:base[facing=south]\<close>, in \<open>all_items\<close> and in its
  groups, so that \<open>get_items_in_category\<close> lists them; the call returns \<open>True\<close> when one of the
  two was not there before. If no property with another key holds an item that starts with
  \<open>ns:base\<close>, the document after the call differs from the one before in that one property
  only: it stands where \<open>q\<close> stood.
\<close>

theorem template_propagation_to_found_category:
  assumes "find_property m (key q) = Some q"
    and "''ns:base[facing=north]'' \<in> set (all_items q)"
    and "''ns:base[facing=south]'' \<in> set (all_items q)"
    and "items_in_groups q"
  shows "\<exists>p'. find_property (snd (add_items_to_category [''other:base''] category_id (Some ''ns:base'') m))
                (key q) = Some p'
     \<and> ''other:base[facing=north]'' \<in> set (all_items p')
     \<and> ''other:base[facing=south]'' \<in> set (all_items p')
     \<and> ''other:base[facing=north]'' \<in> set (get_items_in_category
           (snd (add_items_to_category [''other:base''] category_id (Some ''ns:base'') m)) (key q))
     \<and> ''other:base[facing=south]'' \<in> set (get_items_in_category
           (snd (add_items_to_category [''other:base''] category_id (Some ''ns:base'') m)) (key q))
     \<and> ((''other:base[facing=north]'' \<notin> set (all_items q)
           \<or> ''other:base[facing=south]'' \<notin> set (all_items q))
          \<longrightarrow> fst (add_items_to_category [''other:base''] category_id (Some ''ns:base'') m))
     \<and> ((\<forall>q'. Property q' \<in> set (elements_of m) \<and> key q' \<noteq> key q
              \<longrightarrow> (\<forall>item\<in>set (all_items q'). \<not> str_startswith item ''ns:base''))
          \<longrightarrow> (\<exists>pre post. elements_of m = pre @ Property q # post
                \<and> find_in (key q) pre = None
                \<and> elements_of (snd (add_items_to_category [''other:base''] category_id (Some ''ns:base'') m))
                    = pre @ Property p' # post))"
proof -
  define r where "r = add_items_to_category [''other:base''] category_id (Some ''ns:base'') m"
  have t: "''ns:base'' = CHR ''n'' # ''s:base''" by simp
  have mem: "Property q \<in> set (elements_of m)"
    using assms(1) by (simp add: find_property_def find_in_member)
  from template_add_general [OF t mem, of "[''other:base'']" category_id]
  obtain p' where p': "find_property (snd r) (key q) = Some p'"
    "\<forall>v b. v \<in> set (all_items q) \<and> str_startswith v ''ns:base'' \<and> b \<in> set [''other:base'']
           \<longrightarrow> b @ suffix_of ''ns:base'' v \<in> set (all_items p')"
    unfolding r_def template_base_name_ns_base by blast
  have n: "''other:base[facing=north]'' \<in> set (all_items p')"
    using p'(2) assms(2) startswith_variants(1) suffix_north by fastforce
  have s: "''other:base[facing=south]'' \<in> set (all_items p')"
    using p'(2) assms(3) startswith_variants(2) suffix_south by fastforce
  from template_add_in_groups [OF t assms(1,4), of "[''other:base'']" category_id]
  have g: "items_in_groups p'" using p'(1) unfolding r_def by auto
  have gi: "get_items_in_category (snd r) (key q) = concat (map snd (item_groups p'))"
    using p'(1) by (simp add: get_items_in_category_def)
  have gn: "''other:base[facing=north]'' \<in> set (get_items_in_category (snd r) (key q))"
    and gs: "''other:base[facing=south]'' \<in> set (get_items_in_category (snd r) (key q))"
    using g n s unfolding gi items_in_groups_def by blast+
  have flag: "fst r"
    if new: "''other:base[facing=north]'' \<notin> set (all_items q)
           \<or> ''other:base[facing=south]'' \<notin> set (all_items q)"
  proof (rule ccontr)
    assume "\<not> fst r"
    from template_add_false [OF t assms(1) this [unfolded r_def]]
    have "all_items p' = all_items q" using p'(1) unfolding r_def by auto
    with n s new show False by simp
  qed
  have frame: "\<exists>pre post. elements_of m = pre @ Property q # post
                \<and> find_in (key q) pre = None
                \<and> elements_of (snd r) = pre @ Property p' # post"
    if o: "\<forall>q'. Property q' \<in> set (elements_of m) \<and> key q' \<noteq> key q
              \<longrightarrow> (\<forall>item\<in>set (all_items q'). \<not> str_startswith item ''ns:base'')"
  proof -
    from template_add_frame [OF t assms(1), of "[''other:base'']" category_id] o
    obtain pre post p'' where fr: "elements_of m = pre @ Property q # post"
      "find_in (key q) pre = None" "elements_of (snd r) = pre @ Property p'' # post" "key p'' = key q"
      unfolding r_def template_base_name_ns_base by blast
    have "find_property (snd r) (key q) = Some p''"
      using fr(2,3,4) by (simp add: find_property_def find_in_append)
    with p'(1) have "p'' = p'" by simp
    with fr show ?thesis by blast
  qed
  show ?thesis
    using p'(1) n s gn gs flag frame unfolding r_def by blast
qed

text \<open>The theorem on a loaded file: \<open>block.1\<close> holds the two variants, \<open>block.2\<close> holds none;
  the call returns \<open>True\<close>, \<open>block.1\<close> lists the two new items, and nothing else has changed.\<close>

theorem template_propagation_to_found_category_witness:
  "find_property template_manager ''block.1'' \<noteq> None
   \<and> ''ns:base[facing=north]'' \<in> set (all_items (the (find_property template_manager ''block.1'')))
   \<and> ''ns:base[facing=south]'' \<in> set (all_items (the (find_property template_manager ''block.1'')))
   \<and> items_in_groups (the (find_property template_manager ''block.1''))
   \<and> ''other:base[facing=north]'' \<notin> set (all_items (the (find_property template_manager ''block.1'')))
   \<and> list_all (no_variant_outside ''ns:base'' ''block.1'') (elements_of template_manager)
   \<and> fst (add_items_to_category [''other:base''] [] (Some ''ns:base'') template_manager)
   \<and> (\<exists>p' pre post.
        find_property (snd (add_items_to_category [''other:base''] [] (Some ''ns:base'') template_manager))
          ''block.1'' = Some p'
      \<and> ''other:base[facing=north]'' \<in> set (get_items_in_category
            (snd (add_items_to_category [''other:base''] [] (Some ''ns:base'') template_manager)) ''block.1'')
      \<and> ''other:base[facing=south]'' \<in> set (get_items_in_category
            (snd (add_items_to_category [''other:base''] [] (Some ''ns:base'') template_manager)) ''block.1'')
      \<and> elements_of template_manager
          = pre @ Property (the (find_property template_manager ''block.1'')) # post
      \<and> find_in ''block.1'' pre = None
      \<and> elements_of (snd (add_items_to_category [''other:base''] [] (Some ''ns:base'') template_manager))
          = pre @ Property p' # post)"
proof -
  define q where "q = the (find_property template_manager ''block.1'')"
  define r where "r = add_items_to_category [''other:base''] [] (Some ''ns:base'') template_manager"
  have h0: "find_property template_manager ''block.1'' \<noteq> None" by code_simp
  have k: "key q = ''block.1''" unfolding q_def by code_simp
  have "find_property template_manager ''block.1'' = Some q" using h0 unfolding q_def by simp
  then have h1: "find_property template_manager (key q) = Some q" using k by simp
  have h2: "''ns:base[facing=north]'' \<in> set (all_items q)" unfolding q_def by code_simp
  have h3: "''ns:base[facing=south]'' \<in> set (all_items q)" unfolding q_def by code_simp
  have h4: "items_in_groups q" unfolding q_def by code_simp
  have h5: "''other:base[facing=north]'' \<notin> set (all_items q)" unfolding q_def by code_simp
  have h6: "list_all (no_variant_outside ''ns:base'' ''block.1'') (elements_of template_manager)"
    by code_simp
  have o: "\<forall>q'. Property q' \<in> set (elements_of template_manager) \<and> key q' \<noteq> key q
              \<longrightarrow> (\<forall>item\<in>set (all_items q'). \<not> str_startswith item ''ns:base'')"
  proof (intro allI impI)
    fix q' assume a: "Property q' \<in> set (elements_of template_manager) \<and> key q' \<noteq> key q"
    with h6 have "no_variant_outside ''ns:base'' ''block.1'' (Property q')"
      by (simp add: list_all_iff)
    with a k show "\<forall>item\<in>set (all_items q'). \<not> str_startswith item ''ns:base''"
      by (simp add: no_variant_outside_def list_all_iff)
  qed
  from template_propagation_to_found_category [OF h1 h2 h3 h4, of "[]"] obtain p' where p':
    "find_property (snd r) (key q) = Some p'"
    "''other:base[facing=north]'' \<in> set (get_items_in_category (snd r) (key q))"
    "''other:base[facing=south]'' \<in> set (get_items_in_category (snd r) (key q))"
    "(''other:base[facing=north]'' \<notin> set (all_items q)
           \<or> ''other:base[facing=south]'' \<notin> set (all_items q)) \<longrightarrow> fst r"
    "(\<forall>q'. Property q' \<in> set (elements_of template_manager) \<and> key q' \<noteq> key q
              \<longrightarrow> (\<forall>item\<in>set (all_items q'). \<not> str_startswith item ''ns:base''))
      \<longrightarrow> (\<exists>pre post. elements_of template_manager = pre @ Property q # post
            \<and> find_in (key q) pre = None
            \<and> elements_of (snd r) = pre @ Property p' # post)"
    unfolding r_def by blast
  from p'(4) h5 have fl: "fst r" by blast
  from p'(5) o obtain pre post where fr:
    "elements_of template_manager = pre @ Property q # post"
    "find_in (key q) pre = None" "elements_of (snd r) = pre @ Property p' # post"
    by blast
  have main: "\<exists>p' pre post.
        find_property (snd r) ''block.1'' = Some p'
      \<and> ''other:base[facing=north]'' \<in> set (get_items_in_category (snd r) ''block.1'')
      \<and> ''other:base[facing=south]'' \<in> set (get_items_in_category (snd r) ''block.1'')
      \<and> elements_of template_manager = pre @ Property q # post
      \<and> find_in ''block.1'' pre = None
      \<and> elements_of (snd r) = pre @ Property p' # post"
    using p'(1,2,3) fr unfolding k by blast
  show ?thesis
    using h0 h2 h3 h4 h5 h6 fl main unfolding q_def r_def by blast
qed

text \<open>
  Claim C5 as stated fails when a key occurs twice. The file holds two properties with the
  key \<open>block.1\<close>; the second one holds the two variants of \<open>ns:base\<close>. After the call in
  template mode the second property is as before and holds neither new item; the two new
  items stand in the first property with that key, which held no variant.
\<close>

theorem template_propagation_counterexample:
  "map items_of_element (elements_of duplicate_key_manager)
     = [[''minecraft:stone''], [''ns:base[facing=north]'', ''ns:base[facing=south]'']]
   \<and> elements_of (snd (add_items_to_category [''other:base''] [] (Some ''ns:base'')
        duplicate_key_manager)) ! 1 = elements_of duplicate_key_manager ! 1
   \<and> map items_of_element (elements_of (snd (add_items_to_category [''other:base''] []
        (Some ''ns:base'') duplicate_key_manager)))
     = [[''minecraft:stone'', ''other:base[facing=north]'', ''other:base[facing=south]''],
        [''ns:base[facing=north]'', ''ns:base[facing=south]'']]"
  by code_simp

end
